theory Spec2Isabelle
  imports Complex_Main "HOL-Library.Sublist"
begin

section \<open>JavaScript values and objects\<close>

text \<open>
  The encoder of \<^verbatim>\<open>src/lib/index.ts\<close> works on arbitrary JavaScript values. A value
  is a primitive or a reference to an object of the heap; two references are the same
  object exactly when their addresses are equal. A string is the list of its code units.
  Numbers are only compared, never computed with, so a number is \<open>NaN\<close>, an infinity or a
  finite value.
\<close>

datatype number = NaN | PosInfinity | NegInfinity | Finite rat

type_synonym addr = nat

datatype val =
    Undefined
  | Null
  | Bool bool
  | Num number
  | Str string
  | Ref addr

text \<open>
  An object carries the flag \<^verbatim>\<open>Array.isArray\<close> reads, for an array its \<^verbatim>\<open>length\<close>, its
  own enumerable string-keyed properties in the order \<^verbatim>\<open>Object.entries\<close> lists them, and
  the further data properties a read \<^verbatim>\<open>o[k]\<close> finds when \<open>k\<close> is not among those: own
  non-enumerable properties and properties inherited through the prototype chain. The one
  accessor of the built-in prototypes is \<^verbatim>\<open>__proto__\<close> of \<^verbatim>\<open>Object.prototype\<close>; an object
  records whether a write to \<^verbatim>\<open>__proto__\<close> that finds no own property of that name reaches
  this accessor, as it does for every object whose prototype chain ends in
  \<^verbatim>\<open>Object.prototype\<close> and has no data property of that name. The objects of the model
  are the ordinary objects and arrays of the language with writable data properties: a
  symbol key is not listed by \<^verbatim>\<open>Object.entries\<close>, and an accessor of an object is code of
  its maker, as the converters are. The built-in members of \<^verbatim>\<open>Object.prototype\<close> and
  \<^verbatim>\<open>Array.prototype\<close> are functions, which no tag value equals; they are left out of the
  inherited properties of the objects the encoder creates.
\<close>

record object =
  is_array :: bool
  len :: nat
  entries :: "(string \<times> val) list"
  inherited :: "(string \<times> val) list"
  proto_setter :: bool

type_synonym heap = "object list"

text \<open>\<^verbatim>\<open>{}\<close> and \<^verbatim>\<open>[]\<close>.\<close>

definition empty_object :: "bool \<Rightarrow> object" where
  "empty_object arr =
     \<lparr>is_array = arr, len = 0, entries = [], inherited = [], proto_setter = True\<rparr>"

text \<open>A live reference is below the heap size; the default is for dangling addresses only.\<close>

definition lookup :: "heap \<Rightarrow> addr \<Rightarrow> object" where
  "lookup h a = (if a < length h then h ! a else empty_object False)"

text \<open>\<^verbatim>\<open>Object(arg) === arg\<close>: the argument is an object, not a primitive.\<close>

fun is_object :: "val \<Rightarrow> bool" where
  "is_object (Ref a) = True"
| "is_object v = False"

text \<open>Strict equality \<^verbatim>\<open>===\<close>: \<open>NaN\<close> differs from itself, objects compare by identity.\<close>

fun strict_equal :: "val \<Rightarrow> val \<Rightarrow> bool" where
  "strict_equal (Num NaN) w = False"
| "strict_equal v (Num NaN) = False"
| "strict_equal v w = (v = w)"

subsection \<open>Strings\<close>

text \<open>\<^verbatim>\<open>str.slice(start)\<close>: a negative start counts from the end, and \<open>-0\<close> is \<open>0\<close>.\<close>

definition slice :: "string \<Rightarrow> int \<Rightarrow> string" where
  "slice str start =
     (let len = int (length str);
          from = (if start < 0 then max (len + start) 0 else min start len)
      in drop (nat from) str)"

text \<open>\<^verbatim>\<open>str[i]\<close>: the code unit at \<open>i\<close> as a string, \<^verbatim>\<open>undefined\<close> out of range.\<close>

definition char_at :: "string \<Rightarrow> nat \<Rightarrow> val" where
  "char_at str i = (if i < length str then Str [str ! i] else Undefined)"

subsection \<open>Property keys and their order\<close>

text \<open>
  A key is an array index when it is the canonical decimal numeral of an integer below
  \<open>2^32 - 1\<close>. The own keys of an object are listed with the array indices first, in
  ascending order, and the other strings after them in the order of their creation.
\<close>

definition is_digit :: "char \<Rightarrow> bool" where
  "is_digit c = (48 \<le> (of_char c :: int) \<and> (of_char c :: int) \<le> 57)"

fun digits_value :: "string \<Rightarrow> int \<Rightarrow> int option" where
  "digits_value [] acc = Some acc"
| "digits_value (c # cs) acc =
     (if is_digit c then digits_value cs (10 * acc + (of_char c - 48)) else None)"

definition array_index :: "string \<Rightarrow> int option" where
  "array_index s =
     (case s of
        [] \<Rightarrow> None
      | c # cs \<Rightarrow>
          if c = CHR ''0'' \<and> cs \<noteq> [] then None
          else (case digits_value s 0 of
                  None \<Rightarrow> None
                | Some n \<Rightarrow> if n < 4294967295 then Some n else None))"

function decimal :: "nat \<Rightarrow> string" where
  "decimal n =
     (if n < 10 then [char_of (48 + n)]
      else decimal (n div 10) @ [char_of (48 + n mod 10)])"
  by pat_completeness auto
termination
  by (relation "measure id") auto

declare decimal.simps [simp del]

text \<open>Placing a new array-index key \<open>k\<close> (of value \<open>i\<close>) among the keys present.\<close>

fun insert_index :: "int \<Rightarrow> string \<Rightarrow> val \<Rightarrow> (string \<times> val) list \<Rightarrow> (string \<times> val) list" where
  "insert_index i k v [] = [(k, v)]"
| "insert_index i k v ((k', v') # es) =
     (case array_index k' of
        Some j \<Rightarrow> if j < i then (k', v') # insert_index i k v es
                  else (k, v) # (k', v') # es
      | None \<Rightarrow> (k, v) # (k', v') # es)"

fun update_entry :: "string \<Rightarrow> val \<Rightarrow> (string \<times> val) list \<Rightarrow> (string \<times> val) list" where
  "update_entry k v [] = []"
| "update_entry k v ((k', v') # es) =
     (if k' = k then (k, v) # es else (k', v') # update_entry k v es)"

text \<open>
  The definition of a data property, as an object literal, a spread and an ordinary
  assignment make it: an existing key keeps its place and takes the new value, a new key
  is placed by the order above.
\<close>

definition define_own :: "(string \<times> val) list \<Rightarrow> string \<Rightarrow> val \<Rightarrow> (string \<times> val) list" where
  "define_own es k v =
     (if k \<in> fst ` set es then update_entry k v es
      else (case array_index k of
              Some i \<Rightarrow> insert_index i k v es
            | None \<Rightarrow> es @ [(k, v)]))"

definition set_property :: "object \<Rightarrow> string \<Rightarrow> val \<Rightarrow> object" where
  "set_property ob k v = ob\<lparr>entries := define_own (entries ob) k v\<rparr>"

text \<open>\<^verbatim>\<open>delete o[k]\<close>.\<close>

definition delete_property :: "object \<Rightarrow> string \<Rightarrow> object" where
  "delete_property ob k = ob\<lparr>entries := filter (\<lambda>e. fst e \<noteq> k) (entries ob)\<rparr>"

text \<open>
  \<^verbatim>\<open>Object.entries(o)\<close>: the own enumerable properties. The \<^verbatim>\<open>length\<close> of an array is
  not enumerable, so no entry of an array has that name.
\<close>

definition Object_entries :: "object \<Rightarrow> (string \<times> val) list" where
  "Object_entries ob =
     (if is_array ob then filter (\<lambda>e. fst e \<noteq> ''length'') (entries ob) else entries ob)"

text \<open>
  The read \<^verbatim>\<open>arg[k]\<close> of an object: an own enumerable property, else the \<^verbatim>\<open>length\<close> of
  an array, else a property found otherwise (non-enumerable or inherited), else
  \<^verbatim>\<open>undefined\<close>.
\<close>

definition get_property :: "object \<Rightarrow> string \<Rightarrow> val" where
  "get_property ob k =
     (case map_of (Object_entries ob) k of
        Some v \<Rightarrow> v
      | None \<Rightarrow>
          if is_array ob \<and> k = ''length'' then Num (Finite (of_nat (len ob)))
          else (case map_of (inherited ob) k of Some v \<Rightarrow> v | None \<Rightarrow> Undefined))"

text \<open>
  The own enumerable properties a spread \<^verbatim>\<open>...x\<close> copies: those of an object, the
  code units of a string under their indices, none of any other primitive.
\<close>

definition string_entries :: "string \<Rightarrow> (string \<times> val) list" where
  "string_entries s = map (\<lambda>i. (decimal i, Str [s ! i])) [0..<length s]"

fun own_enumerable :: "heap \<Rightarrow> val \<Rightarrow> (string \<times> val) list" where
  "own_enumerable h (Ref a) = Object_entries (lookup h a)"
| "own_enumerable h (Str s) = string_entries s"
| "own_enumerable h v = []"

text \<open>\<^verbatim>\<open>{...x}\<close> continued on the object literal \<open>ob\<close> under construction.\<close>

definition spread :: "object \<Rightarrow> (string \<times> val) list \<Rightarrow> object" where
  "spread ob es = fold (\<lambda>(k, v) ob'. set_property ob' k v) es ob"

subsection \<open>Assignment\<close>

text \<open>
  An assignment can throw. The conversion of a value to a number is the language's: it is
  fixed on \<^verbatim>\<open>undefined\<close>, \<^verbatim>\<open>null\<close>, booleans and numbers, and taken as a parameter on
  strings (the reading of a numeric literal, rounded) and on objects, where it runs their
  \<^verbatim>\<open>valueOf\<close> and \<^verbatim>\<open>toString\<close>: code of their maker, which may throw and, like
  \<^verbatim>\<open>isSource\<close>, is a function of the heap that writes nothing.
\<close>

datatype error = RangeError | TypeError | Thrown val

record runtime =
  StringToNumber :: "string \<Rightarrow> number"
  ObjectToNumber :: "heap \<Rightarrow> addr \<Rightarrow> error + number"

fun ToNumber :: "runtime \<Rightarrow> heap \<Rightarrow> val \<Rightarrow> error + number" where
  "ToNumber rt h Undefined = Inr NaN"
| "ToNumber rt h Null = Inr (Finite 0)"
| "ToNumber rt h (Bool b) = Inr (Finite (if b then 1 else 0))"
| "ToNumber rt h (Num n) = Inr n"
| "ToNumber rt h (Str s) = Inr (StringToNumber rt s)"
| "ToNumber rt h (Ref a) = ObjectToNumber rt h a"

text \<open>A number is a valid array length when it is an integer from \<open>0\<close> to \<open>2^32 - 1\<close>.\<close>

fun array_length :: "number \<Rightarrow> nat option" where
  "array_length (Finite q) =
     (if q = of_int \<lfloor>q\<rfloor> \<and> 0 \<le> q \<and> q < 4294967296 then Some (nat \<lfloor>q\<rfloor>) else None)"
| "array_length n = None"

text \<open>
  \<^verbatim>\<open>a.length = m\<close> on an array, once \<open>m\<close> is known to be valid: the elements from \<open>m\<close>
  on are deleted.
\<close>

definition set_length :: "object \<Rightarrow> nat \<Rightarrow> object" where
  "set_length ob m =
     ob\<lparr>len := m,
        entries := filter (\<lambda>e. case array_index (fst e) of
                                  Some i \<Rightarrow> i < int m
                                | None \<Rightarrow> True) (entries ob)\<rparr>"

text \<open>
  The setter of \<^verbatim>\<open>__proto__\<close>: an object or \<^verbatim>\<open>null\<close> becomes the prototype, any other
  value is ignored. With the object \<open>p\<close> for prototype, the properties inherited are
  those a read of \<open>p\<close> finds, \<^verbatim>\<open>__proto__\<close> reads as \<open>p\<close> where the accessor is reached,
  and the accessor is reached as it is from \<open>p\<close>.
\<close>

definition reaches_proto_setter :: "object \<Rightarrow> bool" where
  "reaches_proto_setter ob =
     (proto_setter ob \<and> ''__proto__'' \<notin> fst ` set (Object_entries ob))"

definition prototype_reads :: "addr \<Rightarrow> object \<Rightarrow> (string \<times> val) list" where
  "prototype_reads a p =
     (if reaches_proto_setter p then [(''__proto__'', Ref a)] else []) @
     Object_entries p @
     (if is_array p then [(''length'', Num (Finite (of_nat (len p))))] else []) @
     inherited p"

fun set_prototype :: "heap \<Rightarrow> object \<Rightarrow> val \<Rightarrow> object" where
  "set_prototype h ob (Ref a) =
     ob\<lparr>inherited := prototype_reads a (lookup h a),
        proto_setter := reaches_proto_setter (lookup h a)\<rparr>"
| "set_prototype h ob Null = ob\<lparr>inherited := [], proto_setter := False\<rparr>"
| "set_prototype h ob v = ob"

text \<open>
  The ordinary case of an assignment defines the data property; on an array an index at
  or beyond the length extends the length.
\<close>

definition store :: "object \<Rightarrow> string \<Rightarrow> val \<Rightarrow> object" where
  "store ob k v =
     ob\<lparr>entries := define_own (entries ob) k v,
        len := (case array_index k of
                  Some i \<Rightarrow> if is_array ob then max (len ob) (nat i + 1) else len ob
                | None \<Rightarrow> len ob)\<rparr>"

text \<open>
  \<^verbatim>\<open>clone[k] = v\<close> on an object the encoder has just created. The \<^verbatim>\<open>length\<close> of an
  array is its own property: the value is converted to a number, and a number that is no
  valid length throws \<^verbatim>\<open>RangeError\<close>. A key \<^verbatim>\<open>__proto__\<close> that the clone does not have
  as its own reaches the setter, unless an earlier assignment has changed the prototype to
  one without it. Every other assignment is ordinary.
\<close>

definition assign :: "runtime \<Rightarrow> heap \<Rightarrow> object \<Rightarrow> string \<Rightarrow> val \<Rightarrow> error + object" where
  "assign rt h ob k v =
     (if is_array ob \<and> k = ''length''
      then (case ToNumber rt h v of
              Inl e \<Rightarrow> Inl e
            | Inr n \<Rightarrow> (case array_length n of
                          None \<Rightarrow> Inl RangeError
                        | Some m \<Rightarrow> Inr (set_length ob m)))
      else if k = ''__proto__'' \<and> reaches_proto_setter ob
      then Inr (set_prototype h ob v)
      else Inr (store ob k v))"

section \<open>The encoder\<close>

text \<open>
  \<^verbatim>\<open>EncoderOptions\<close>, with the fields of \<^verbatim>\<open>typeTag\<close> inline. The value of the tag has
  the type \<^verbatim>\<open>string | number | null\<close>. The two converters are the caller's: they read
  the heap and may allocate in it; a converter is a function that returns, and what a
  converter throws is not the encoder's.
\<close>

datatype tag_value = TagString string | TagNumber number | TagNull

fun val_of_tag :: "tag_value \<Rightarrow> val" where
  "val_of_tag (TagString s) = Str s"
| "val_of_tag (TagNumber n) = Num n"
| "val_of_tag TagNull = Null"

record options =
  key :: string
  "value" :: tag_value
  escapeCharacter :: string
  isSource :: "heap \<Rightarrow> val \<Rightarrow> bool"
  toPlainObject :: "val \<Rightarrow> heap \<Rightarrow> val \<times> heap"
  fromPlainObject :: "val \<Rightarrow> heap \<Rightarrow> val \<times> heap"

text \<open>The loop of \<^verbatim>\<open>getEscapeCharCount\<close>, from index \<open>i\<close> on.\<close>

function escape_scan :: "string \<Rightarrow> string \<Rightarrow> nat \<Rightarrow> nat \<Rightarrow> int" where
  "escape_scan esc str count i =
     (if i < count
      then (if char_at str i \<noteq> Str esc then - 1 else escape_scan esc str count (i + 1))
      else int count)"
  by pat_completeness auto
termination
  by (relation "measure (\<lambda>(esc, str, count, i). count - i)") auto

declare escape_scan.simps [simp del]

definition getEscapeCharCount :: "options \<Rightarrow> string \<Rightarrow> int" where
  "getEscapeCharCount opts str =
     (let count = int (length str) - int (length (key opts))
      in if count \<ge> 0
         then (if slice str (- int (length (key opts))) = key opts
               then escape_scan (escapeCharacter opts) str (nat count) 0
               else - 1)
         else - 1)"

definition prependEscapeChar :: "options \<Rightarrow> string \<Rightarrow> string" where
  "prependEscapeChar opts str =
     (if getEscapeCharCount opts str = - 1 then str else escapeCharacter opts @ str)"

definition removePrependedEscapeChar :: "options \<Rightarrow> string \<Rightarrow> string" where
  "removePrependedEscapeChar opts str =
     (if getEscapeCharCount opts str > 0 then slice str 1 else str)"

text \<open>
  The loop of \<^verbatim>\<open>replaceObjectKey\<close> over \<^verbatim>\<open>Object.entries(arg)\<close>, on the clone and
  the flag \<^verbatim>\<open>containsEscapedKey\<close>; it ends where an assignment throws.
\<close>

fun replace_loop ::
  "runtime \<Rightarrow> heap \<Rightarrow> (string \<Rightarrow> string) \<Rightarrow> (string \<times> val) list \<Rightarrow> object \<times> bool \<Rightarrow>
   error + object \<times> bool" where
  "replace_loop rt h replaceKey [] (clone, containsEscapedKey) = Inr (clone, containsEscapedKey)"
| "replace_loop rt h replaceKey ((k, v) # es) (clone, containsEscapedKey) =
     (let escapedKey = replaceKey k
      in case assign rt h clone escapedKey v of
           Inl e \<Rightarrow> Inl e
         | Inr clone' \<Rightarrow>
             replace_loop rt h replaceKey es
               (clone', (if escapedKey \<noteq> k then True else containsEscapedKey)))"

text \<open>
  A call returns a value or throws, and leaves a heap. The clone is allocated at the next
  free address whether or not it is returned; a clone left by an exception is
  unreachable and is not kept. The objects already in the heap are not written.
\<close>

type_synonym outcome = "(error + val) \<times> heap"

definition replaceObjectKey ::
  "runtime \<Rightarrow> val \<Rightarrow> (string \<Rightarrow> string) \<Rightarrow> heap \<Rightarrow> outcome" where
  "replaceObjectKey rt arg replaceKey h =
     (case arg of
        Ref a \<Rightarrow>
          (case replace_loop rt h replaceKey (Object_entries (lookup h a))
                  (empty_object (is_array (lookup h a)), False) of
             Inl e \<Rightarrow> (Inl e, h)
           | Inr (clone, containsEscapedKey) \<Rightarrow>
               (Inr (if containsEscapedKey then Ref (length h) else arg), h @ [clone]))
      | _ \<Rightarrow> (Inr arg, h))"

text \<open>What a converter returns, as the outcome of the call.\<close>

definition returned :: "val \<times> heap \<Rightarrow> outcome" where
  "returned r = (Inr (fst r), snd r)"

definition encode :: "runtime \<Rightarrow> options \<Rightarrow> val \<Rightarrow> heap \<Rightarrow> outcome" where
  "encode rt opts arg h =
     (let isSourceType = isSource opts h arg;
          (converted, h1) = (if isSourceType then toPlainObject opts arg h else (arg, h))
      in case replaceObjectKey rt converted (prependEscapeChar opts) h1 of
           (Inl e, h2) \<Rightarrow> (Inl e, h2)
         | (Inr escaped, h2) \<Rightarrow>
             if isSourceType
             then (Inr (Ref (length h2)),
                   h2 @ [spread (set_property (empty_object False) (key opts)
                                   (val_of_tag (value opts)))
                           (own_enumerable h2 escaped)])
             else (Inr escaped, h2))"

text \<open>Line 100 of the source: \<^verbatim>\<open>arg[key] === value\<close>, for an object \<open>arg\<close>.\<close>

definition isTargetType :: "options \<Rightarrow> heap \<Rightarrow> addr \<Rightarrow> bool" where
  "isTargetType opts h a =
     strict_equal (get_property (lookup h a) (key opts)) (val_of_tag (value opts))"

definition decode :: "runtime \<Rightarrow> options \<Rightarrow> val \<Rightarrow> heap \<Rightarrow> outcome" where
  "decode rt opts arg h =
     (case arg of
        Ref a \<Rightarrow>
          (let tagged = isTargetType opts h a;
               (arg', h1) =
                 (if tagged
                  then (Ref (length h),
                        h @ [delete_property
                               (spread (empty_object False) (Object_entries (lookup h a)))
                               (key opts)])
                  else (arg, h))
           in case replaceObjectKey rt arg' (removePrependedEscapeChar opts) h1 of
                (Inl e, h2) \<Rightarrow> (Inl e, h2)
              | (Inr unescaped, h2) \<Rightarrow>
                  if tagged then returned (fromPlainObject opts unescaped h2)
                  else (Inr unescaped, h2))
      | _ \<Rightarrow> (Inr arg, h))"

section \<open>The demonstration encoder\<close>

text \<open>
  The encoder of the demonstration script: the source values are the instances of
  \<^verbatim>\<open>Error\<close>, which the model knows by the name they inherit; \<^verbatim>\<open>toPlainObject\<close> copies
  \<^verbatim>\<open>name\<close>, \<^verbatim>\<open>message\<close> and \<^verbatim>\<open>stack\<close> into a new object, \<^verbatim>\<open>fromPlainObject\<close> builds
  a new error from them. The message of \<^verbatim>\<open>new Error(m)\<close> is \<open>m\<close> for a string \<open>m\<close> and
  the empty string of the prototype for \<^verbatim>\<open>undefined\<close>; the name assigned is an own
  property.
\<close>

text \<open>
  The conversions of the language are not the encoder's. The examples are run with a
  runtime that reads a string of decimal digits as its number and any other string, and
  any object, as \<open>NaN\<close>, as the language does for the strings and objects of the
  examples.
\<close>

definition sample_runtime :: runtime where
  "sample_runtime =
     \<lparr>StringToNumber =
        (\<lambda>s. case digits_value s 0 of Some n \<Rightarrow> Finite (of_int n) | None \<Rightarrow> NaN),
      ObjectToNumber = (\<lambda>h a. Inr NaN)\<rparr>"

definition read_property :: "heap \<Rightarrow> val \<Rightarrow> string \<Rightarrow> val" where
  "read_property h v k = (case v of Ref a \<Rightarrow> get_property (lookup h a) k | _ \<Rightarrow> Undefined)"

definition is_error :: "heap \<Rightarrow> val \<Rightarrow> bool" where
  "is_error h v =
     (case v of
        Ref a \<Rightarrow> map_of (inherited (lookup h a)) ''name'' = Some (Str ''Error'')
      | _ \<Rightarrow> False)"

definition errorEncoder :: options where
  "errorEncoder =
     \<lparr>key = ''$type'', value = TagString ''Error'', escapeCharacter = ''_'',
      isSource = is_error,
      toPlainObject = (\<lambda>err h.
        (Ref (length h),
         h @ [\<lparr>is_array = False, len = 0,
               entries = [(''name'', read_property h err ''name''),
                          (''message'', read_property h err ''message''),
                          (''stack'', read_property h err ''stack'')],
               inherited = [], proto_setter = True\<rparr>])),
      fromPlainObject = (\<lambda>arg h.
        (Ref (length h),
         h @ [\<lparr>is_array = False, len = 0,
               entries = [(''name'', read_property h arg ''name'')],
               inherited = [(''message'', (case read_property h arg ''message'' of
                                             Undefined \<Rightarrow> Str []
                                           | m \<Rightarrow> m)),
                            (''stack'', read_property h arg ''stack''),
                            (''name'', Str ''Error'')], proto_setter = True\<rparr>]))\<rparr>"

text \<open>A heap holding the object \<^verbatim>\<open>{ age: 12, name: 'hello' }\<close>.\<close>

definition plain_heap :: heap where
  "plain_heap =
     [\<lparr>is_array = False, len = 0,
       entries = [(''age'', Num (Finite 12)), (''name'', Str ''hello'')],
       inherited = [], proto_setter = True\<rparr>]"

text \<open>A heap holding the object \<^verbatim>\<open>{ $type: 1, age: 12 }\<close>.\<close>

definition collision_heap :: heap where
  "collision_heap =
     [\<lparr>is_array = False, len = 0,
       entries = [(''$type'', Num (Finite 1)), (''age'', Num (Finite 12))],
       inherited = [], proto_setter = True\<rparr>]"

text \<open>The same encoder with the empty string for tag key, and the object \<^verbatim>\<open>{ _: 1 }\<close>.\<close>

definition emptyKeyEncoder :: options where
  "emptyKeyEncoder = errorEncoder\<lparr>key := []\<rparr>"

definition underscore_heap :: heap where
  "underscore_heap =
     [\<lparr>is_array = False, len = 0, entries = [(''_'', Num (Finite 1))], inherited = [], proto_setter = True\<rparr>]"

text \<open>A heap holding the object \<^verbatim>\<open>{ _$type: 1, age: 12 }\<close>.\<close>

definition escaped_heap :: heap where
  "escaped_heap =
     [\<lparr>is_array = False, len = 0,
       entries = [(''_$type'', Num (Finite 1)), (''age'', Num (Finite 12))],
       inherited = [], proto_setter = True\<rparr>]"

text \<open>
  The same encoder with the tag key \<^verbatim>\<open>name\<close>; a heap holding \<^verbatim>\<open>new Error("msg")\<close>, whose
  message and stack are not enumerable and whose name is inherited; and a heap holding the
  encoded form of that error.
\<close>

definition nameEncoder :: options where
  "nameEncoder = errorEncoder\<lparr>key := ''name''\<rparr>"

definition error_heap :: heap where
  "error_heap =
     [\<lparr>is_array = False, len = 0, entries = [],
       inherited = [(''message'', Str ''msg''), (''stack'', Str ''Error: msg''),
                    (''name'', Str ''Error'')], proto_setter = True\<rparr>]"

definition tagged_heap :: heap where
  "tagged_heap =
     [\<lparr>is_array = False, len = 0,
       entries = [(''$type'', Str ''Error''), (''name'', Str ''Error''),
                  (''message'', Str ''msg''), (''stack'', Str ''Error: msg'')],
       inherited = [], proto_setter = True\<rparr>]"

text \<open>
  An encoder whose plain representation is a primitive: the source values are the errors,
  \<^verbatim>\<open>toPlainObject\<close> returns the \<^verbatim>\<open>code\<close> of the error and \<^verbatim>\<open>fromPlainObject\<close> builds an
  error with the code it is given; and a heap holding an error with the code \<open>5\<close>.
\<close>

definition codeEncoder :: options where
  "codeEncoder =
     \<lparr>key = ''$type'', value = TagString ''Error'', escapeCharacter = ''_'',
      isSource = is_error,
      toPlainObject = (\<lambda>err h. (read_property h err ''code'', h)),
      fromPlainObject = (\<lambda>arg h.
        (Ref (length h),
         h @ [\<lparr>is_array = False, len = 0, entries = [(''code'', arg)],
               inherited = [(''name'', Str ''Error'')], proto_setter = True\<rparr>]))\<rparr>"

definition code_heap :: heap where
  "code_heap =
     [\<lparr>is_array = False, len = 0, entries = [(''code'', Num (Finite 5))],
       inherited = [(''name'', Str ''Error'')], proto_setter = True\<rparr>]"

text \<open>The plain representation the demonstration encoder makes of \<^verbatim>\<open>new Error("msg")\<close>.\<close>

definition error_payload :: object where
  "error_payload =
     \<lparr>is_array = False, len = 0,
      entries = [(''name'', Str ''Error''), (''message'', Str ''msg''),
                 (''stack'', Str ''Error: msg'')],
      inherited = [], proto_setter = True\<rparr>"

text \<open>
  An encoder whose plain representation is an array: \<^verbatim>\<open>toPlainObject\<close> returns
  \<^verbatim>\<open>[err.name, err.message]\<close>, \<^verbatim>\<open>fromPlainObject\<close> builds an error from the two
  elements. A heap holding the array \<^verbatim>\<open>["a", "b"]\<close> with the further property
  \<^verbatim>\<open>$type: 1\<close>, and one holding the same array with \<^verbatim>\<open>$type: "Error"\<close>.
\<close>

definition pair_payload :: object where
  "pair_payload =
     \<lparr>is_array = True, len = 2, entries = [(''0'', Str ''Error''), (''1'', Str ''msg'')],
      inherited = [], proto_setter = True\<rparr>"

definition pairEncoder :: options where
  "pairEncoder =
     \<lparr>key = ''$type'', value = TagString ''Error'', escapeCharacter = ''_'',
      isSource = is_error,
      toPlainObject = (\<lambda>err h.
        (Ref (length h),
         h @ [\<lparr>is_array = True, len = 2,
               entries = [(''0'', read_property h err ''name''),
                          (''1'', read_property h err ''message'')],
               inherited = [], proto_setter = True\<rparr>])),
      fromPlainObject = (\<lambda>arg h.
        (Ref (length h),
         h @ [\<lparr>is_array = False, len = 0,
               entries = [(''name'', read_property h arg ''0'')],
               inherited = [(''message'', read_property h arg ''1''),
                            (''name'', Str ''Error'')], proto_setter = True\<rparr>]))\<rparr>"

definition array_heap :: heap where
  "array_heap =
     [\<lparr>is_array = True, len = 2,
       entries = [(''0'', Str ''a''), (''1'', Str ''b''), (''$type'', Num (Finite 1))],
       inherited = [], proto_setter = True\<rparr>]"

definition tagged_array_heap :: heap where
  "tagged_array_heap =
     [\<lparr>is_array = True, len = 2,
       entries = [(''0'', Str ''a''), (''1'', Str ''b''), (''$type'', Str ''Error'')],
       inherited = [], proto_setter = True\<rparr>]"

text \<open>
  An encoder whose plain representation is a string, the message of the error; and the
  same encoder with the tag key \<^verbatim>\<open>0\<close>.
\<close>

definition messageEncoder :: options where
  "messageEncoder =
     codeEncoder\<lparr>toPlainObject := (\<lambda>err h. (read_property h err ''message'', h))\<rparr>"

definition zeroKeyEncoder :: options where
  "zeroKeyEncoder = messageEncoder\<lparr>key := ''0''\<rparr>"




text \<open>
  Containers whose keys are renamed to \<^verbatim>\<open>length\<close> or are \<^verbatim>\<open>__proto__\<close>, or collide once
  renamed: the demonstration encoder with the tag key \<^verbatim>\<open>length\<close> and the array
  \<^verbatim>\<open>["x", "y"]\<close> with the further property \<^verbatim>\<open>_length: 0\<close>; the encoder with the tag key
  \<^verbatim>\<open>ength\<close> and the escape character \<^verbatim>\<open>l\<close>, and the empty array with the property
  \<^verbatim>\<open>ength: "abc"\<close>; the object with the own properties \<^verbatim>\<open>__proto__: 1\<close> and
  \<^verbatim>\<open>$type: 2\<close>, as \<^verbatim>\<open>JSON.parse\<close> makes it; and the object
  \<^verbatim>\<open>{ $type: 1, _$type: 2, age: 3 }\<close>.
\<close>

definition lengthEncoder :: options where
  "lengthEncoder = errorEncoder\<lparr>key := ''length''\<rparr>"

definition truncating_heap :: heap where
  "truncating_heap =
     [\<lparr>is_array = True, len = 2,
       entries = [(''0'', Str ''x''), (''1'', Str ''y''), (''_length'', Num (Finite 0))],
       inherited = [], proto_setter = True\<rparr>]"

definition engthEncoder :: options where
  "engthEncoder = errorEncoder\<lparr>key := ''ength'', escapeCharacter := ''l''\<rparr>"

definition throwing_heap :: heap where
  "throwing_heap =
     [\<lparr>is_array = True, len = 0, entries = [(''ength'', Str ''abc'')],
       inherited = [], proto_setter = True\<rparr>]"

definition proto_heap :: heap where
  "proto_heap =
     [\<lparr>is_array = False, len = 0,
       entries = [(''__proto__'', Num (Finite 1)), (''$type'', Num (Finite 2))],
       inherited = [], proto_setter = True\<rparr>]"

definition twin_heap :: heap where
  "twin_heap =
     [\<lparr>is_array = False, len = 0,
       entries = [(''$type'', Num (Finite 1)), (''_$type'', Num (Finite 2)),
                  (''age'', Num (Finite 3))],
       inherited = [], proto_setter = True\<rparr>]"
section \<open>The shapes of keys, in the words of the specification\<close>

text \<open>
  A key \<open>k\<close> is tag-shaped when, with \<open>n = k.length - key.length\<close>, \<open>n \<ge> 0\<close>, the
  trailing substring of \<open>k\<close> of the length of the tag key is the tag key, and each of the
  \<open>n\<close> characters before it is the escape character.
\<close>

definition tag_shaped :: "options \<Rightarrow> string \<Rightarrow> bool" where
  "tag_shaped opts k =
     (let n = int (length k) - int (length (key opts))
      in n \<ge> 0 \<and> drop (nat n) k = key opts \<and>
         list_all (\<lambda>c. [c] = escapeCharacter opts) (take (nat n) k))"

text \<open>The top-level keys of a value: those of a keyed container, none of a primitive.\<close>

definition top_level_keys :: "heap \<Rightarrow> val \<Rightarrow> string list" where
  "top_level_keys h v =
     (case v of Ref a \<Rightarrow> map fst (Object_entries (lookup h a)) | _ \<Rightarrow> [])"

text \<open>
  The test \<^verbatim>\<open>decode\<close> makes of its argument (lines 97 to 100): a keyed container whose
  read of the tag key is strictly equal to the tag value.
\<close>

definition is_tagged :: "options \<Rightarrow> heap \<Rightarrow> val \<Rightarrow> bool" where
  "is_tagged opts h v = (case v of Ref a \<Rightarrow> isTargetType opts h a | _ \<Rightarrow> False)"

text \<open>
  A key \<open>k\<close> is escaped when, with \<open>n = k.length - key.length\<close>, \<open>n > 0\<close>, the trailing
  substring of \<open>k\<close> is the tag key and all \<open>n\<close> leading characters are the escape character.
\<close>

definition escaped_shaped :: "options \<Rightarrow> string \<Rightarrow> bool" where
  "escaped_shaped opts k =
     (let n = int (length k) - int (length (key opts))
      in n > 0 \<and> drop (nat n) k = key opts \<and>
         list_all (\<lambda>c. [c] = escapeCharacter opts) (take (nat n) k))"

text \<open>
  A keyed container carries the tag when it contains an own entry whose key is the tag key
  and whose value is deep-equal to the tag value; on strings, numbers and \<^verbatim>\<open>null\<close> that
  is to be the same value.
\<close>

definition has_tag_entry :: "options \<Rightarrow> heap \<Rightarrow> val \<Rightarrow> bool" where
  "has_tag_entry opts h v =
     (case v of
        Ref a \<Rightarrow> (key opts, val_of_tag (value opts)) \<in> set (Object_entries (lookup h a))
      | _ \<Rightarrow> False)"




subsection \<open>Ordinary assignments\<close>

text \<open>
  An assignment \<^verbatim>\<open>clone[k] = v\<close> is ordinary when \<open>k\<close> is not \<^verbatim>\<open>__proto__\<close> and, the
  clone being an array, not \<^verbatim>\<open>length\<close>. A renaming writes ordinarily on an object when
  the assignment of each renamed key of the object is ordinary; the clone is then the one
  the ordinary assignments of the renamed entries make.
\<close>

definition ordinary_key :: "bool \<Rightarrow> string \<Rightarrow> bool" where
  "ordinary_key arr k = (k \<noteq> ''__proto__'' \<and> \<not> (arr \<and> k = ''length''))"

definition ordinary_writes :: "(string \<Rightarrow> string) \<Rightarrow> object \<Rightarrow> bool" where
  "ordinary_writes f ob =
     list_all (\<lambda>k. ordinary_key (is_array ob) (f k)) (map fst (Object_entries ob))"

definition stores :: "object \<Rightarrow> (string \<times> val) list \<Rightarrow> object" where
  "stores ob es = fold (\<lambda>(k, v) ob'. store ob' k v) es ob"

text \<open>
  A key with its first character stripped when it is escaped; and a renaming that writes
  ordinarily on a value: on the object a reference names, and on every primitive.
\<close>

definition unescaped_key :: "options \<Rightarrow> string \<Rightarrow> string" where
  "unescaped_key opts k = (if escaped_shaped opts k then drop 1 k else k)"

definition writes_ordinarily :: "(string \<Rightarrow> string) \<Rightarrow> heap \<Rightarrow> val \<Rightarrow> bool" where
  "writes_ordinarily f h v =
     (case v of Ref a \<Rightarrow> ordinary_writes f (lookup h a) | _ \<Rightarrow> True)"

text \<open>
  The value \<^verbatim>\<open>encode\<close> hands to \<^verbatim>\<open>replaceObjectKey\<close>, with the heap at that point
  (lines 84 and 85 of the source); and a renaming that sends a top-level key of an array to
  \<^verbatim>\<open>length\<close>, the one assignment to the clone that can throw.
\<close>

definition converted :: "options \<Rightarrow> val \<Rightarrow> heap \<Rightarrow> val \<times> heap" where
  "converted opts v h = (if isSource opts h v then toPlainObject opts v h else (v, h))"


text \<open>The entries of a container with each key replaced by its image, the values kept.\<close>

definition rename :: "(string \<Rightarrow> string) \<Rightarrow> (string \<times> val) list \<Rightarrow> (string \<times> val) list" where
  "rename f es = map (\<lambda>(k, v). (f k, v)) es"

text \<open>
  A key is stable under a renaming of the entries of a container when the renaming sends no
  other key of the container to it and leaves it as it is if the container has it.
\<close>

definition stable_key :: "(string \<Rightarrow> string) \<Rightarrow> (string \<times> val) list \<Rightarrow> string \<Rightarrow> bool" where
  "stable_key f es k =
     (list_all (\<lambda>k'. f k' = k \<longrightarrow> k' = k) (map fst es) \<and> (k \<in> fst ` set es \<longrightarrow> f k = k))"

section \<open>The key functions\<close>

lemma escape_scan_eq:
  "escape_scan esc str count i =
     (if \<forall>j. i \<le> j \<and> j < count \<longrightarrow> char_at str j = Str esc then int count else - 1)"
proof (induction esc str count i rule: escape_scan.induct)
  case (1 esc str count i)
  show ?case
  proof (cases "i < count")
    case False
    then show ?thesis by (simp add: escape_scan.simps)
  next
    case True
    note lt = this
    show ?thesis
    proof (cases "char_at str i = Str esc")
      case False
      with lt show ?thesis by (subst escape_scan.simps) auto
    next
      case True
      have "(\<forall>j. i \<le> j \<and> j < count \<longrightarrow> char_at str j = Str esc) =
            (\<forall>j. i + 1 \<le> j \<and> j < count \<longrightarrow> char_at str j = Str esc)"
      proof (intro iffI allI impI)
        fix j assume a: "\<forall>j. i + 1 \<le> j \<and> j < count \<longrightarrow> char_at str j = Str esc"
          and b: "i \<le> j \<and> j < count"
        show "char_at str j = Str esc"
        proof (cases "j = i")
          case True
          then show ?thesis using \<open>char_at str i = Str esc\<close> by simp
        next
          case False
          then have "i + 1 \<le> j \<and> j < count" using b by simp
          then show ?thesis using a by blast
        qed
      qed simp
      with lt True "1.IH" show ?thesis by (subst escape_scan.simps) simp
    qed
  qed
qed

lemma slice_neg: "0 < m \<Longrightarrow> m \<le> length str \<Longrightarrow> slice str (- int m) = drop (length str - m) str"
  by (simp add: slice_def Let_def nat_diff_distrib')

lemma slice_one: "slice str 1 = drop 1 str"
  by (cases str) (simp_all add: slice_def Let_def)

lemma list_all_char_at:
  "n \<le> length k \<Longrightarrow> list_all (\<lambda>c. [c] = esc) (take n k) = (\<forall>j. 0 \<le> j \<and> j < n \<longrightarrow> char_at k j = Str esc)"
proof (induction k arbitrary: n)
  case Nil
  then show ?case by simp
next
  case (Cons c cs)
  show ?case
  proof (cases n)
    case 0
    then show ?thesis by simp
  next
    case (Suc m)
    have m: "m \<le> length cs" using Cons.prems Suc by simp
    have "(\<forall>j. 0 \<le> j \<and> j < Suc m \<longrightarrow> char_at (c # cs) j = Str esc) =
          (char_at (c # cs) 0 = Str esc \<and> (\<forall>j. j < m \<longrightarrow> char_at (c # cs) (Suc j) = Str esc))"
      by (auto simp: less_Suc_eq_0_disj)
    also have "\<dots> = ([c] = esc \<and> (\<forall>j. 0 \<le> j \<and> j < m \<longrightarrow> char_at cs j = Str esc))"
      by (simp add: char_at_def)
    finally show ?thesis using Cons.IH [OF m] Suc by simp
  qed
qed

lemma getEscapeCharCount_spec:
  assumes "key opts \<noteq> []"
  shows "getEscapeCharCount opts k =
           (if tag_shaped opts k then int (length k) - int (length (key opts)) else - 1)"
proof (cases "length (key opts) \<le> length k")
  case False
  then show ?thesis by (simp add: getEscapeCharCount_def tag_shaped_def Let_def)
next
  case True
  have n: "nat (int (length k) - int (length (key opts))) = length k - length (key opts)"
    using True by simp
  have le: "length k - length (key opts) \<le> length k" by simp
  show ?thesis
    using True assms
    by (simp add: getEscapeCharCount_def tag_shaped_def Let_def n slice_neg escape_scan_eq
        list_all_char_at [OF le])
qed

lemma getEscapeCharCount_range: "getEscapeCharCount opts k = - 1 \<or> getEscapeCharCount opts k = int (length k) - int (length (key opts))"
  by (simp add: getEscapeCharCount_def Let_def escape_scan_eq)

lemma getEscapeCharCount_tag_shaped:
  assumes "getEscapeCharCount opts k \<noteq> - 1"
  shows "tag_shaped opts k"
proof (cases "key opts = []")
  case False
  with assms show ?thesis by (simp add: getEscapeCharCount_spec split: if_splits)
next
  case True
  have "k = []"
  proof (rule ccontr)
    assume "k \<noteq> []"
    then have "slice k 0 \<noteq> []" by (simp add: slice_def)
    with True assms show False by (simp add: getEscapeCharCount_def Let_def)
  qed
  with True show ?thesis by (simp add: tag_shaped_def)
qed

lemma tag_shaped_key: "tag_shaped opts (key opts)"
  by (simp add: tag_shaped_def)

lemma tag_shaped_replicate:
  "escapeCharacter opts = [c] \<Longrightarrow> tag_shaped opts k = (\<exists>n. k = replicate n c @ key opts)"
proof
  assume e: "escapeCharacter opts = [c]" and t: "tag_shaped opts k"
  define n where "n = length k - length (key opts)"
  from t have le: "length (key opts) \<le> length k" and d: "drop n k = key opts"
    and a: "list_all (\<lambda>x. [x] = [c]) (take n k)"
    by (simp_all add: tag_shaped_def Let_def n_def e nat_diff_distrib')
  from a have "\<forall>x\<in>set (take n k). x = c" by (simp add: list_all_iff)
  then have "take n k = replicate (length (take n k)) c"
    by (simp add: replicate_eqI)
  then have "take n k = replicate n c" using le by (simp add: n_def)
  then have "k = replicate n c @ key opts" using d by (metis append_take_drop_id)
  then show "\<exists>n. k = replicate n c @ key opts" ..
next
  assume e: "escapeCharacter opts = [c]" and "\<exists>n. k = replicate n c @ key opts"
  then obtain n where "k = replicate n c @ key opts" by blast
  then show "tag_shaped opts k" by (simp add: tag_shaped_def e list_all_iff)
qed

lemma tag_shaped_Cons:
  "escapeCharacter opts = [c] \<Longrightarrow> tag_shaped opts k \<Longrightarrow> tag_shaped opts (c # k)"
proof -
  assume e: "escapeCharacter opts = [c]" and "tag_shaped opts k"
  then obtain n where "k = replicate n c @ key opts" by (auto simp: tag_shaped_replicate)
  then have "c # k = replicate (Suc n) c @ key opts" by simp
  then show ?thesis using e tag_shaped_replicate by blast
qed

lemma prependEscapeChar_spec:
  "key opts \<noteq> [] \<Longrightarrow>
   prependEscapeChar opts k = (if tag_shaped opts k then escapeCharacter opts @ k else k)"
  by (simp add: prependEscapeChar_def getEscapeCharCount_spec tag_shaped_def Let_def)

lemma removePrependedEscapeChar_spec:
  "key opts \<noteq> [] \<Longrightarrow>
   removePrependedEscapeChar opts k =
     (if tag_shaped opts k \<and> length (key opts) < length k then drop 1 k else k)"
  by (auto simp add: removePrependedEscapeChar_def getEscapeCharCount_spec slice_one)

lemma remove_prepend:
  assumes "escapeCharacter opts = [c]" "key opts \<noteq> []"
  shows "removePrependedEscapeChar opts (prependEscapeChar opts k) = k"
proof (cases "tag_shaped opts k")
  case False
  then show ?thesis using assms by (simp add: prependEscapeChar_spec removePrependedEscapeChar_spec)
next
  case True
  then have "tag_shaped opts (c # k)" using assms tag_shaped_Cons by blast
  moreover have "length (key opts) \<le> length k" using True by (simp add: tag_shaped_def Let_def)
  ultimately show ?thesis using assms True
    by (simp add: prependEscapeChar_spec removePrependedEscapeChar_spec)
qed

lemma prepend_neq_key:
  assumes "escapeCharacter opts = [c]" "key opts \<noteq> []"
  shows "prependEscapeChar opts k \<noteq> key opts"
proof (cases "tag_shaped opts k")
  case False
  then have "k \<noteq> key opts" using tag_shaped_key by blast
  with False show ?thesis using assms by (simp add: prependEscapeChar_spec)
next
  case True
  then have "length (key opts) \<le> length k" by (simp add: tag_shaped_def Let_def)
  then have "length (c # k) \<noteq> length (key opts)" by simp
  then have "c # k \<noteq> key opts" by (metis length_Cons)
  with True show ?thesis using assms by (simp add: prependEscapeChar_spec)
qed

lemma prepend_inj:
  assumes "escapeCharacter opts = [c]" "key opts \<noteq> []"
  shows "inj (prependEscapeChar opts)"
  by (rule inj_on_inverseI [where g = "removePrependedEscapeChar opts"]) (simp add: assms remove_prepend)


lemma getEscapeCharCount_Nil: "key opts = [] \<Longrightarrow> getEscapeCharCount opts [] = 0"
  by (simp add: getEscapeCharCount_def slice_def escape_scan.simps)

lemma prepend_neq_key_any:
  assumes "escapeCharacter opts = [c]"
  shows "prependEscapeChar opts k \<noteq> key opts"
proof (cases "key opts = []")
  case False
  with assms show ?thesis by (rule prepend_neq_key)
next
  case True
  show ?thesis
  proof (cases "k = []")
    case False
    then show ?thesis using assms True by (simp add: prependEscapeChar_def)
  next
    case k: True
    have "getEscapeCharCount opts [] \<noteq> - 1" using getEscapeCharCount_Nil [OF True] by simp
    then show ?thesis using assms True k by (simp add: prependEscapeChar_def)
  qed
qed
section \<open>Objects under construction\<close>

lemma update_entry_keys: "map fst (update_entry k v es) = map fst es"
  by (induction es) auto

lemma map_of_update_entry: "k \<in> fst ` set es \<Longrightarrow> map_of (update_entry k v es) = (map_of es)(k \<mapsto> v)"
proof (induction es)
  case Nil
  then show ?case by simp
next
  case (Cons e es)
  obtain k' v' where e: "e = (k', v')" by (cases e)
  show ?case
  proof (cases "k' = k")
    case True
    then show ?thesis by (simp add: e fun_eq_iff)
  next
    case False
    then have "k \<in> fst ` set es" using Cons.prems e by auto
    then show ?thesis using False Cons.IH by (simp add: e fun_eq_iff)
  qed
qed

lemma insert_index_keys: "fst ` set (insert_index i k v es) = insert k (fst ` set es)"
proof (induction es)
  case Nil
  then show ?case by simp
next
  case (Cons e es)
  obtain k' v' where e: "e = (k', v')" by (cases e)
  show ?case
  proof (cases "array_index k'")
    case None
    then show ?thesis by (simp add: e)
  next
    case (Some j)
    then show ?thesis using Cons.IH by (simp add: e insert_commute)
  qed
qed

lemma distinct_insert_index:
  "k \<notin> fst ` set es \<Longrightarrow> distinct (map fst es) \<Longrightarrow> distinct (map fst (insert_index i k v es))"
proof (induction es)
  case Nil
  then show ?case by simp
next
  case (Cons e es)
  obtain k' v' where e: "e = (k', v')" by (cases e)
  have "k' \<notin> fst ` set (insert_index i k v es)"
    using Cons.prems e by (auto simp: insert_index_keys)
  then show ?case using Cons e by (auto split: option.splits)
qed

lemma map_of_insert_index:
  "k \<notin> fst ` set es \<Longrightarrow>
   map_of (insert_index i k v es) x = (if x = k then Some v else map_of es x)"
proof (induction es)
  case Nil
  then show ?case by simp
next
  case (Cons e es)
  obtain k' v' where e: "e = (k', v')" by (cases e)
  then have ne: "k' \<noteq> k" and "k \<notin> fst ` set es" using Cons.prems by auto
  then have ih: "map_of (insert_index i k v es) x = (if x = k then Some v else map_of es x)"
    using Cons.IH by simp
  show ?case using e ne ih by (auto split: option.splits)
qed

lemma update_entry_keys': "fst ` set (update_entry k v es) = fst ` set es"
  using update_entry_keys [of k v es] by (metis set_map)

lemma define_own_keys: "fst ` set (define_own es k v) = insert k (fst ` set es)"
proof (cases "k \<in> fst ` set es")
  case True
  then show ?thesis by (auto simp: define_own_def update_entry_keys')
next
  case False
  then show ?thesis by (auto simp: define_own_def insert_index_keys split: option.splits)
qed

lemma distinct_define_own:
  "distinct (map fst es) \<Longrightarrow> distinct (map fst (define_own es k v))"
  unfolding define_own_def
  by (auto simp: update_entry_keys distinct_insert_index split: option.splits)

lemma map_of_snoc:
  "k \<notin> fst ` set es \<Longrightarrow> map_of (es @ [(k, v)]) x = (if x = k then Some v else map_of es x)"
proof (induction es)
  case Nil
  then show ?case by simp
next
  case (Cons e es)
  then show ?case by (cases e) auto
qed

lemma map_of_define_own: "map_of (define_own es k v) = (map_of es)(k \<mapsto> v)"
proof (cases "k \<in> fst ` set es")
  case True
  then show ?thesis by (simp add: define_own_def map_of_update_entry)
next
  case False
  show ?thesis
  proof (rule ext)
    fix x
    show "map_of (define_own es k v) x = ((map_of es)(k \<mapsto> v)) x"
      using False
      by (simp add: define_own_def map_of_insert_index map_of_snoc split: option.splits
          del: map_of_append)
  qed
qed

lemma set_property_simps [simp]:
  "is_array (set_property ob k v) = is_array ob"
  "len (set_property ob k v) = len ob"
  "inherited (set_property ob k v) = inherited ob"
  "proto_setter (set_property ob k v) = proto_setter ob"
  "entries (set_property ob k v) = define_own (entries ob) k v"
  by (simp_all add: set_property_def)

lemma delete_property_simps [simp]:
  "is_array (delete_property ob k) = is_array ob"
  "len (delete_property ob k) = len ob"
  "inherited (delete_property ob k) = inherited ob"
  "proto_setter (delete_property ob k) = proto_setter ob"
  "entries (delete_property ob k) = filter (\<lambda>e. fst e \<noteq> k) (entries ob)"
  by (simp_all add: delete_property_def)

lemma empty_object_simps [simp]:
  "is_array (empty_object arr) = arr"
  "len (empty_object arr) = 0"
  "inherited (empty_object arr) = []"
  "proto_setter (empty_object arr) = True"
  "entries (empty_object arr) = []"
  by (simp_all add: empty_object_def)

lemma spread_Nil [simp]: "spread ob [] = ob"
  by (simp add: spread_def)

lemma spread_Cons [simp]: "spread ob ((k, v) # es) = spread (set_property ob k v) es"
  by (simp add: spread_def)

lemma spread_append: "spread ob (es @ es') = spread (spread ob es) es'"
  by (simp add: spread_def)

lemma spread_frame [simp]:
  "is_array (spread ob es) = is_array ob"
  "len (spread ob es) = len ob"
  "inherited (spread ob es) = inherited ob"
  "proto_setter (spread ob es) = proto_setter ob"
  by (induction es arbitrary: ob) auto

lemma spread_keys:
  "fst ` set (entries (spread ob es)) = fst ` set (entries ob) \<union> fst ` set es"
proof (induction es arbitrary: ob)
  case Nil
  then show ?case by simp
next
  case (Cons e es)
  obtain k v where e: "e = (k, v)" by (cases e)
  show ?case unfolding e spread_Cons Cons.IH by (simp add: define_own_keys)
qed

lemma distinct_spread:
  "distinct (map fst (entries ob)) \<Longrightarrow> distinct (map fst (entries (spread ob es)))"
  by (induction es arbitrary: ob) (auto simp: distinct_define_own)

lemma map_of_spread:
  "map_of (entries (spread ob es)) = map_of (entries ob) ++ map_of (rev es)"
proof (induction es arbitrary: ob)
  case Nil
  then show ?case by simp
next
  case (Cons e es)
  obtain k v where e: "e = (k, v)" by (cases e)
  show ?case
    by (simp add: e Cons.IH map_of_define_own map_add_def fun_eq_iff split: option.splits)
qed

section \<open>Renaming the keys of distinct entries\<close>

lemma rename_keys: "fst ` set (rename f es) = f ` fst ` set es"
  by (force simp: rename_def image_iff)

lemma rename_set: "set (rename f es) = (\<lambda>(k, v). (f k, v)) ` set es"
  by (simp add: rename_def)

lemma map_fst_rename: "map fst (rename f es) = map f (map fst es)"
  by (simp add: rename_def case_prod_unfold)

lemma distinct_rename:
  "distinct (map fst es) \<Longrightarrow> inj_on f (fst ` set es) \<Longrightarrow> distinct (map fst (rename f es))"
proof -
  assume d: "distinct (map fst es)" and i: "inj_on f (fst ` set es)"
  have "inj_on f (set (map fst es))" using i by simp
  then have "distinct (map f (map fst es))" using d by (simp only: distinct_map)
  then show ?thesis by (simp only: map_fst_rename)
qed

lemma rename_id: "\<forall>k\<in>fst ` set es. f k = k \<Longrightarrow> rename f es = es"
  unfolding rename_def by (induction es) auto

lemma rename_rename: "rename g (rename f es) = rename (g \<circ> f) es"
  by (simp add: rename_def case_prod_unfold)

lemma update_entry_absent: "k \<notin> fst ` set es \<Longrightarrow> update_entry k v es = es"
  by (induction es) auto

lemma set_insert_index: "set (insert_index i k v es) = insert (k, v) (set es)"
proof (induction es)
  case Nil
  then show ?case by simp
next
  case (Cons e es)
  obtain k' v' where e: "e = (k', v')" by (cases e)
  show ?case
  proof (cases "array_index k'")
    case None
    then show ?thesis by (simp add: e)
  next
    case (Some j)
    then show ?thesis using Cons.IH by (simp add: e insert_commute)
  qed
qed

lemma set_define_own_new:
  "k \<notin> fst ` set es \<Longrightarrow> set (define_own es k v) = insert (k, v) (set es)"
  by (simp add: define_own_def set_insert_index split: option.splits)

lemma set_spread_distinct:
  "distinct (map fst (entries ob) @ map fst es) \<Longrightarrow>
   set (entries (spread ob es)) = set (entries ob) \<union> set es"
proof (induction es arbitrary: ob)
  case Nil
  then show ?case by simp
next
  case (Cons e es)
  obtain k v where e: "e = (k, v)" by (cases e)
  have new: "k \<notin> fst ` set (entries ob)" using Cons.prems by (auto simp: e)
  have keys: "set (map fst (entries (set_property ob k v))) = insert k (set (map fst (entries ob)))"
    using define_own_keys [of "entries ob" k v] by simp
  have "distinct (map fst (entries (set_property ob k v)) @ map fst es)"
    using Cons.prems new keys by (auto simp: e distinct_define_own)
  then have "set (entries (spread (set_property ob k v) es)) =
             set (entries (set_property ob k v)) \<union> set es"
    by (rule Cons.IH)
  then show ?case using new by (simp add: e set_define_own_new)
qed

lemma set_spread_empty:
  "distinct (map fst es) \<Longrightarrow> set (entries (spread (empty_object arr) es)) = set es"
  using set_spread_distinct [of "empty_object arr" es] by simp

lemma distinct_spread_empty: "distinct (map fst (entries (spread (empty_object arr) es)))"
  by (rule distinct_spread) simp


lemma map_of_rev_distinct: "distinct (map fst es) \<Longrightarrow> map_of (rev es) = map_of es"
  by (rule map_of_inject_set [THEN iffD2]) (simp_all add: rev_map [symmetric])

lemma map_of_filter_key:
  "k \<noteq> k' \<Longrightarrow> map_of (filter (\<lambda>e. fst e \<noteq> k') es) k = map_of es k"
  by (induction es) auto
section \<open>Assignments to the clone\<close>

lemma store_simps [simp]:
  "is_array (store ob k v) = is_array ob"
  "inherited (store ob k v) = inherited ob"
  "proto_setter (store ob k v) = proto_setter ob"
  "entries (store ob k v) = define_own (entries ob) k v"
  by (simp_all add: store_def)

lemma store_plain: "\<not> is_array ob \<Longrightarrow> store ob k v = set_property ob k v"
  by (simp add: store_def set_property_def split: option.splits)

lemma stores_Nil [simp]: "stores ob [] = ob"
  by (simp add: stores_def)

lemma stores_Cons [simp]: "stores ob ((k, v) # es) = stores (store ob k v) es"
  by (simp add: stores_def)

lemma stores_frame [simp]:
  "is_array (stores ob es) = is_array ob"
  "inherited (stores ob es) = inherited ob"
  "proto_setter (stores ob es) = proto_setter ob"
  by (induction es arbitrary: ob) auto

lemma entries_stores_spread:
  "entries ob = entries ob' \<Longrightarrow> entries (stores ob es) = entries (spread ob' es)"
proof (induction es arbitrary: ob ob')
  case Nil
  then show ?case by simp
next
  case (Cons e es)
  obtain k v where e: "e = (k, v)" by (cases e)
  have "entries (store ob k v) = entries (set_property ob' k v)"
    using Cons.prems by simp
  then show ?case unfolding e stores_Cons spread_Cons by (rule Cons.IH)
qed

lemma entries_stores: "entries (stores ob es) = entries (spread ob es)"
  by (rule entries_stores_spread) simp

lemma stores_plain: "\<not> is_array ob \<Longrightarrow> stores ob es = spread ob es"
  by (induction es arbitrary: ob) (auto simp: store_plain)

lemma set_length_simps [simp]:
  "is_array (set_length ob m) = is_array ob"
  "inherited (set_length ob m) = inherited ob"
  "proto_setter (set_length ob m) = proto_setter ob"
  "len (set_length ob m) = m"
  by (simp_all add: set_length_def)

lemma set_prototype_is_array [simp]: "is_array (set_prototype h ob v) = is_array ob"
  by (cases v) simp_all

lemma set_prototype_entries [simp]: "entries (set_prototype h ob v) = entries ob"
  by (cases v) simp_all

lemma assign_ordinary:
  "ordinary_key (is_array ob) k \<Longrightarrow> assign rt h ob k v = Inr (store ob k v)"
  by (auto simp: assign_def ordinary_key_def)

lemma assign_is_array: "assign rt h ob k v = Inr ob' \<Longrightarrow> is_array ob' = is_array ob"
  by (auto simp: assign_def split: if_splits sum.splits option.splits)

lemma assign_no_length:
  "\<not> (is_array ob \<and> k = ''length'') \<Longrightarrow> \<exists>ob'. assign rt h ob k v = Inr ob'"
  by (auto simp: assign_def)

lemma replace_loop_flag:
  "replace_loop rt h f es (clone, c) = Inr (clone', c') \<Longrightarrow>
   c' = (c \<or> (\<exists>k\<in>fst ` set es. f k \<noteq> k)) \<and> is_array clone' = is_array clone"
proof (induction es arbitrary: clone c)
  case Nil
  then show ?case by simp
next
  case (Cons e es)
  obtain k v where e: "e = (k, v)" by (cases e)
  from Cons.prems obtain ob where a: "assign rt h clone (f k) v = Inr ob"
    and r: "replace_loop rt h f es (ob, (if f k \<noteq> k then True else c)) = Inr (clone', c')"
    by (auto simp: e Let_def split: sum.splits)
  from Cons.IH [OF r] assign_is_array [OF a] show ?case by (auto simp: e)
qed

lemma replace_loop_returns:
  assumes "\<forall>k\<in>fst ` set es. \<not> (is_array clone \<and> f k = ''length'')"
  shows "\<exists>clone'. replace_loop rt h f es (clone, c) =
           Inr (clone', c \<or> (\<exists>k\<in>fst ` set es. f k \<noteq> k))"
  using assms
proof (induction es arbitrary: clone c)
  case Nil
  then show ?case by simp
next
  case (Cons e es)
  obtain k v where e: "e = (k, v)" by (cases e)
  have "\<not> (is_array clone \<and> f k = ''length'')" using Cons.prems by (simp add: e)
  then obtain ob where a: "assign rt h clone (f k) v = Inr ob"
    using assign_no_length by blast
  have arr: "is_array ob = is_array clone" using a by (rule assign_is_array)
  have "\<forall>k'\<in>fst ` set es. \<not> (is_array ob \<and> f k' = ''length'')"
    using Cons.prems by (simp add: e arr)
  from Cons.IH [OF this, of "if f k \<noteq> k then True else c"]
  obtain clone' where "replace_loop rt h f es (ob, (if f k \<noteq> k then True else c)) =
      Inr (clone', (if f k \<noteq> k then True else c) \<or> (\<exists>k\<in>fst ` set es. f k \<noteq> k))"
    by blast
  then show ?case by (auto simp: e a Let_def)
qed

lemma replace_loop_ordinary:
  assumes "\<forall>k\<in>fst ` set es. ordinary_key (is_array clone) (f k)"
  shows "replace_loop rt h f es (clone, c) =
           Inr (stores clone (rename f es), c \<or> (\<exists>k\<in>fst ` set es. f k \<noteq> k))"
  using assms
proof (induction es arbitrary: clone c)
  case Nil
  then show ?case by (simp add: rename_def)
next
  case (Cons e es)
  obtain k v where e: "e = (k, v)" by (cases e)
  have a: "assign rt h clone (f k) v = Inr (store clone (f k) v)"
    using Cons.prems by (simp add: e assign_ordinary)
  have "\<forall>k'\<in>fst ` set es. ordinary_key (is_array (store clone (f k) v)) (f k')"
    using Cons.prems by (simp add: e)
  from Cons.IH [OF this, of "if f k \<noteq> k then True else c"]
  show ?case by (auto simp: e a Let_def rename_def)
qed

section \<open>The engine, case by case\<close>

lemma lookup_append_old [simp]: "a < length h \<Longrightarrow> lookup (h @ hs) a = lookup h a"
  by (simp add: lookup_def nth_append)

lemma lookup_append_new [simp]: "lookup (h @ [ob]) (length h) = ob"
  by (simp add: lookup_def)

lemma lookup_prefix: "prefix h h' \<Longrightarrow> a < length h \<Longrightarrow> lookup h' a = lookup h a"
  by (auto simp: prefix_def)

lemma replaceObjectKey_primitive: "\<not> is_object v \<Longrightarrow> replaceObjectKey rt v f h = (Inr v, h)"
  by (cases v) (simp_all add: replaceObjectKey_def)



lemma replaceObjectKey_returns:
  assumes "\<not> (is_array (lookup h a) \<and>
              (\<exists>k\<in>fst ` set (Object_entries (lookup h a)). f k = ''length''))"
  shows "\<exists>clone. replaceObjectKey rt (Ref a) f h =
           (Inr (if \<exists>k\<in>fst ` set (Object_entries (lookup h a)). f k \<noteq> k
                 then Ref (length h) else Ref a), h @ [clone]) \<and>
           is_array clone = is_array (lookup h a)"
proof -
  have "\<forall>k\<in>fst ` set (Object_entries (lookup h a)).
          \<not> (is_array (empty_object (is_array (lookup h a))) \<and> f k = ''length'')"
    using assms by auto
  from replace_loop_returns [OF this, of rt h False]
  obtain clone where r: "replace_loop rt h f (Object_entries (lookup h a))
      (empty_object (is_array (lookup h a)), False) =
      Inr (clone, False \<or> (\<exists>k\<in>fst ` set (Object_entries (lookup h a)). f k \<noteq> k))"
    by blast
  from replace_loop_flag [OF r] have "is_array clone = is_array (lookup h a)" by simp
  then show ?thesis by (simp add: replaceObjectKey_def r)
qed

lemma replaceObjectKey_ordinary:
  assumes "ordinary_writes f (lookup h a)"
  shows "replaceObjectKey rt (Ref a) f h =
           (Inr (if \<exists>k\<in>fst ` set (Object_entries (lookup h a)). f k \<noteq> k
                 then Ref (length h) else Ref a),
            h @ [stores (empty_object (is_array (lookup h a)))
                   (rename f (Object_entries (lookup h a)))])"
proof -
  have "\<forall>k\<in>fst ` set (Object_entries (lookup h a)).
          ordinary_key (is_array (empty_object (is_array (lookup h a)))) (f k)"
    using assms by (auto simp: ordinary_writes_def list_all_iff)
  from replace_loop_ordinary [OF this, of rt h False]
  show ?thesis by (simp add: replaceObjectKey_def)
qed

lemma replaceObjectKey_plain:
  assumes "\<not> is_array (lookup h a)"
  shows "\<exists>clone. replaceObjectKey rt (Ref a) f h =
           (Inr (if \<exists>k\<in>fst ` set (Object_entries (lookup h a)). f k \<noteq> k
                 then Ref (length h) else Ref a), h @ [clone]) \<and> \<not> is_array clone"
  using replaceObjectKey_returns [of h a f rt] assms by auto

lemma replaceObjectKey_unchanged:
  assumes "fst (replaceObjectKey rt v f h) = Inr u"
    and "\<forall>k\<in>set (top_level_keys h v). f k = k"
  shows "u = v"
proof (cases v)
  case (Ref a)
  have "\<not> (\<exists>k\<in>fst ` set (Object_entries (lookup h a)). f k \<noteq> k)"
    using assms(2) by (simp add: Ref top_level_keys_def)
  moreover obtain clone c where "replace_loop rt h f (Object_entries (lookup h a))
      (empty_object (is_array (lookup h a)), False) = Inr (clone, c)"
    using assms(1) by (auto simp: Ref replaceObjectKey_def split: sum.splits)
  moreover from replace_loop_flag [OF this]
  have "c = (\<exists>k\<in>fst ` set (Object_entries (lookup h a)). f k \<noteq> k)" by simp
  ultimately show ?thesis using assms(1) by (simp add: Ref replaceObjectKey_def)
qed (use assms in \<open>simp_all add: replaceObjectKey_def\<close>)



lemma prepend_unchanged: "\<not> tag_shaped opts k \<Longrightarrow> prependEscapeChar opts k = k"
  using getEscapeCharCount_tag_shaped [of opts k] by (auto simp: prependEscapeChar_def)

lemma remove_unchanged: "\<not> tag_shaped opts k \<Longrightarrow> removePrependedEscapeChar opts k = k"
  using getEscapeCharCount_tag_shaped [of opts k] by (auto simp: removePrependedEscapeChar_def)

lemma encode_not_source:
  "\<not> isSource opts h v \<Longrightarrow> encode rt opts v h = replaceObjectKey rt v (prependEscapeChar opts) h"
  by (simp add: encode_def Let_def split: prod.splits sum.splits)

lemma encode_source:
  "isSource opts h v \<Longrightarrow>
   encode rt opts v h =
     (let c = toPlainObject opts v h
      in case replaceObjectKey rt (fst c) (prependEscapeChar opts) (snd c) of
           (Inl e, h2) \<Rightarrow> (Inl e, h2)
         | (Inr escaped, h2) \<Rightarrow>
             (Inr (Ref (length h2)),
              h2 @ [spread (set_property (empty_object False) (key opts)
                              (val_of_tag (value opts)))
                      (own_enumerable h2 escaped)]))"
  by (simp add: encode_def Let_def split: prod.splits sum.splits)

lemma decode_primitive: "\<not> is_object v \<Longrightarrow> decode rt opts v h = (Inr v, h)"
  by (cases v) (simp_all add: decode_def)

lemma decode_untagged:
  "\<not> is_tagged opts h v \<Longrightarrow>
   decode rt opts v h = replaceObjectKey rt v (removePrependedEscapeChar opts) h"
  by (cases v)
    (simp_all add: decode_def is_tagged_def Let_def replaceObjectKey_def
      split: prod.splits sum.splits)

lemma strict_equal_eq: "strict_equal v w = (v = w \<and> v \<noteq> Num NaN)"
  by (cases "(v, w)" rule: strict_equal.cases) auto

lemma decode_tagged:
  assumes "is_tagged opts h (Ref a)"
  shows "decode rt opts (Ref a) h =
           (let stripped = delete_property
                             (spread (empty_object False) (Object_entries (lookup h a)))
                             (key opts)
            in case replaceObjectKey rt (Ref (length h)) (removePrependedEscapeChar opts)
                      (h @ [stripped]) of
                 (Inl e, h2) \<Rightarrow> (Inl e, h2)
               | (Inr unescaped, h2) \<Rightarrow> returned (fromPlainObject opts unescaped h2))"
  using assms by (simp add: decode_def is_tagged_def Let_def split: prod.splits sum.splits)

lemma is_tagged_fromPlainObject [simp]:
  "is_tagged (opts\<lparr>fromPlainObject := f\<rparr>) h v = is_tagged opts h v"
  by (cases v) (simp_all add: is_tagged_def isTargetType_def)

lemma removePrependedEscapeChar_fromPlainObject [simp]:
  "removePrependedEscapeChar (opts\<lparr>fromPlainObject := f\<rparr>) = removePrependedEscapeChar opts"
  by (simp add: fun_eq_iff removePrependedEscapeChar_def getEscapeCharCount_def)

lemma Object_entries_plain [simp]: "\<not> is_array ob \<Longrightarrow> Object_entries ob = entries ob"
  by (simp add: Object_entries_def)

lemma Object_entries_no_length:
  "''length'' \<notin> fst ` set (entries ob) \<Longrightarrow> Object_entries ob = entries ob"
  by (force simp: Object_entries_def filter_id_conv)

lemma Object_entries_subset: "set (Object_entries ob) \<subseteq> set (entries ob)"
  by (auto simp: Object_entries_def)

lemma distinct_Object_entries:
  "distinct (map fst (entries ob)) \<Longrightarrow> distinct (map fst (Object_entries ob))"
  by (simp add: Object_entries_def distinct_map_filter)

lemma Object_entries_clone:
  assumes "ordinary_writes f ob"
  shows "Object_entries (stores (empty_object (is_array ob)) (rename f (Object_entries ob))) =
           entries (spread (empty_object (is_array ob)) (rename f (Object_entries ob)))"
proof (cases "is_array ob")
  case False
  then show ?thesis by (simp add: entries_stores)
next
  case True
  have "''length'' \<notin> f ` fst ` set (Object_entries ob)"
    using assms True by (auto simp: ordinary_writes_def list_all_iff ordinary_key_def)
  then have "''length'' \<notin> fst ` set (entries (stores (empty_object (is_array ob))
                (rename f (Object_entries ob))))"
    by (simp add: entries_stores spread_keys rename_keys empty_object_def)
  then show ?thesis by (simp add: Object_entries_no_length entries_stores)
qed

lemma replaceObjectKey_entries:
  assumes "a < length h"
    and "distinct (map fst (Object_entries (lookup h a)))"
    and "inj_on f (fst ` set (Object_entries (lookup h a)))"
    and "ordinary_writes f (lookup h a)"
  obtains b h' where "replaceObjectKey rt (Ref a) f h = (Inr (Ref b), h')"
    and "b < length h'" and "prefix h h'"
    and "b = a \<or> b = length h"
    and "(b = a) = (\<forall>k\<in>fst ` set (Object_entries (lookup h a)). f k = k)"
    and "set (Object_entries (lookup h' b)) = set (rename f (Object_entries (lookup h a)))"
    and "distinct (map fst (Object_entries (lookup h' b)))"
    and "is_array (lookup h' b) = is_array (lookup h a)"
    and "b \<noteq> a \<Longrightarrow> inherited (lookup h' b) = [] \<and> proto_setter (lookup h' b)"
proof -
  let ?E = "Object_entries (lookup h a)"
  let ?C = "stores (empty_object (is_array (lookup h a))) (rename f ?E)"
  have d: "distinct (map fst (rename f ?E))"
    using assms(2,3) by (rule distinct_rename)
  have oc: "Object_entries ?C = entries (spread (empty_object (is_array (lookup h a))) (rename f ?E))"
    using assms(4) by (rule Object_entries_clone)
  show ?thesis
  proof (cases "\<exists>k\<in>fst ` set ?E. f k \<noteq> k")
    case False
    then have id: "rename f ?E = ?E" by (simp add: rename_id)
    from False have r: "replaceObjectKey rt (Ref a) f h = (Inr (Ref a), h @ [?C])"
      using replaceObjectKey_ordinary [OF assms(4), of rt] by simp
    show ?thesis
      by (rule that [of a "h @ [?C]"]) (use assms False in \<open>simp_all add: r id\<close>)
  next
    case True
    from True have r: "replaceObjectKey rt (Ref a) f h = (Inr (Ref (length h)), h @ [?C])"
      using replaceObjectKey_ordinary [OF assms(4), of rt] by simp
    have ne: "length h \<noteq> a" using assms(1) by simp
    show ?thesis
    proof (rule that [of "length h" "h @ [?C]"])
      show "(length h = a) = (\<forall>k\<in>fst ` set ?E. f k = k)" using True ne by auto
    qed (use assms d in \<open>simp_all add: r oc set_spread_empty distinct_spread_empty\<close>)
  qed
qed


lemma identity_returns:
  assumes "\<forall>k\<in>set (top_level_keys h v). f k = k"
  shows "fst (replaceObjectKey rt v f h) = Inr v"
proof (cases v)
  case (Ref a)
  have "\<not> (is_array (lookup h a) \<and>
           (\<exists>k\<in>fst ` set (Object_entries (lookup h a)). f k = ''length''))"
    using assms by (auto simp: Ref top_level_keys_def Object_entries_def)
  from replaceObjectKey_returns [OF this, of rt]
  obtain u where "fst (replaceObjectKey rt (Ref a) f h) = Inr u" by auto
  with replaceObjectKey_unchanged [OF _ assms, of rt u] show ?thesis by (simp add: Ref)
qed (simp_all add: replaceObjectKey_def)

section \<open>The keys of the demonstration\<close>

lemma dollar_type_counts:
  assumes "key opts = ''$type''" "escapeCharacter opts = ''_''"
  shows "getEscapeCharCount opts ''$type'' = 0"
    and "getEscapeCharCount opts ''_$type'' = 1"
    and "getEscapeCharCount opts ''__$type'' = 2"
    and "getEscapeCharCount opts ''age'' = - 1"
  using assms
  by (simp_all add: getEscapeCharCount_def slice_def escape_scan.simps char_at_def)

lemma dollar_type_keys:
  assumes "key opts = ''$type''" "escapeCharacter opts = ''_''"
  shows "prependEscapeChar opts ''$type'' = ''_$type''"
    and "prependEscapeChar opts ''_$type'' = ''__$type''"
    and "prependEscapeChar opts ''age'' = ''age''"
    and "removePrependedEscapeChar opts ''$type'' = ''$type''"
    and "removePrependedEscapeChar opts ''_$type'' = ''$type''"
    and "removePrependedEscapeChar opts ''__$type'' = ''_$type''"
    and "removePrependedEscapeChar opts ''age'' = ''age''"
  using assms
  by (simp_all add: prependEscapeChar_def removePrependedEscapeChar_def dollar_type_counts
      slice_one)

lemma array_index_literals:
  "array_index ''$type'' = None" "array_index ''_$type'' = None" "array_index ''age'' = None"
  by (simp_all add: array_index_def is_digit_def)

section \<open>Encoding a source value and decoding a tagged container\<close>

lemma define_own_Nil [simp]: "define_own [] k v = [(k, v)]"
  by (simp add: define_own_def split: option.splits)

lemma encode_source_object:
  assumes src: "isSource opts h s"
    and conv: "toPlainObject opts s h = (Ref p, h1)"
    and p: "p < length h1"
    and dist: "distinct (map fst (Object_entries (lookup h1 p)))"
    and esc: "escapeCharacter opts = [c]"
    and key: "key opts \<noteq> []"
    and ord: "ordinary_writes (prependEscapeChar opts) (lookup h1 p)"
  obtains t h2 where "encode rt opts s h = (Inr (Ref t), h2)"
    and "t < length h2" and "length h1 \<le> t" and "prefix h1 h2"
    and "\<not> is_array (lookup h2 t)" and "inherited (lookup h2 t) = []"
    and "set (entries (lookup h2 t)) =
           insert (key opts, val_of_tag (value opts))
             (set (rename (prependEscapeChar opts) (Object_entries (lookup h1 p))))"
    and "distinct (map fst (entries (lookup h2 t)))"
proof -
  let ?f = "prependEscapeChar opts"
  let ?E = "Object_entries (lookup h1 p)"
  have inj: "inj_on ?f (fst ` set ?E)"
    using prepend_inj [OF esc key] by (rule inj_on_subset) simp
  show ?thesis
  proof (rule replaceObjectKey_entries [OF p dist inj ord, of rt])
  fix b h'
  assume r: "replaceObjectKey rt (Ref p) ?f h1 = (Inr (Ref b), h')"
    and b: "b < length h'" and pre: "prefix h1 h'"
    and bs: "set (Object_entries (lookup h' b)) = set (rename ?f ?E)"
    and bd: "distinct (map fst (Object_entries (lookup h' b)))"
  let ?E1 = "Object_entries (lookup h' b)"
  let ?T = "spread (set_property (empty_object False) (key opts) (val_of_tag (value opts))) ?E1"
  have enc: "encode rt opts s h = (Inr (Ref (length h')), h' @ [?T])"
    unfolding encode_source [OF src] conv Let_def fst_conv snd_conv r by simp
  have "fst ` set ?E1 = ?f ` fst ` set ?E"
    using bs rename_keys [of ?f ?E] by simp
  then have new: "key opts \<notin> fst ` set ?E1"
    using prepend_neq_key [OF esc key] by force
  then have new': "key opts \<notin> set (map fst ?E1)" by simp
  have "distinct (map fst (entries (set_property (empty_object False) (key opts)
                     (val_of_tag (value opts)))) @ map fst ?E1)"
    using new' bd by (simp add: set_property_def empty_object_def)
  then have st: "set (entries ?T) = insert (key opts, val_of_tag (value opts)) (set ?E1)"
    by (simp add: set_spread_distinct set_property_def empty_object_def)
  have dt: "distinct (map fst (entries ?T))"
    by (rule distinct_spread) (simp add: set_property_def empty_object_def)
  show ?thesis
  proof (rule that [of "length h'" "h' @ [?T]"])
    show "encode rt opts s h = (Inr (Ref (length h')), h' @ [?T])" by (rule enc)
    show "length h' < length (h' @ [?T])" by simp
    show "length h1 \<le> length h'" using pre by (rule prefix_length_le)
    show "prefix h1 (h' @ [?T])" using pre by (simp add: prefix_prefix)
    show "\<not> is_array (lookup (h' @ [?T]) (length h'))" by simp
    show "inherited (lookup (h' @ [?T]) (length h')) = []" by simp
    show "set (entries (lookup (h' @ [?T]) (length h'))) =
            insert (key opts, val_of_tag (value opts)) (set (rename ?f ?E))"
      using st bs by simp
    show "distinct (map fst (entries (lookup (h' @ [?T]) (length h'))))"
      using dt by simp
  qed
qed
qed

lemma distinct_filter_keys:
  "distinct (map fst es) \<Longrightarrow> distinct (map fst (filter P es))"
  by (simp add: distinct_map_filter)

lemma decode_tagged_object:
  assumes t: "t < length h2"
    and dist: "distinct (map fst (Object_entries (lookup h2 t)))"
    and tag: "(key opts, val_of_tag (value opts)) \<in> set (Object_entries (lookup h2 t))"
    and nan: "value opts \<noteq> TagNumber NaN"
    and inj: "inj_on (removePrependedEscapeChar opts)
                (fst ` set (Object_entries (lookup h2 t)) - {key opts})"
    and ord: "\<forall>k\<in>fst ` set (Object_entries (lookup h2 t)) - {key opts}.
                removePrependedEscapeChar opts k \<noteq> ''__proto__''"
  obtains r h3 where "decode rt opts (Ref t) h2 = returned (fromPlainObject opts (Ref r) h3)"
    and "r < length h3" and "length h2 \<le> r" and "prefix h2 h3"
    and "\<not> is_array (lookup h3 r)" and "inherited (lookup h3 r) = []"
    and "set (entries (lookup h3 r)) =
           set (rename (removePrependedEscapeChar opts)
                  (filter (\<lambda>e. fst e \<noteq> key opts) (Object_entries (lookup h2 t))))"
    and "distinct (map fst (entries (lookup h3 r)))"
proof -
  let ?g = "removePrependedEscapeChar opts"
  let ?T = "Object_entries (lookup h2 t)"
  let ?S = "delete_property (spread (empty_object False) ?T) (key opts)"
  let ?h = "h2 @ [?S]"
  have "map_of ?T (key opts) = Some (val_of_tag (value opts))"
    using dist tag by simp
  moreover have "val_of_tag (value opts) \<noteq> Num NaN" using nan by (cases "value opts") auto
  ultimately have tagged: "is_tagged opts h2 (Ref t)"
    by (simp add: is_tagged_def isTargetType_def get_property_def strict_equal_eq)
  have sT: "set (entries (spread (empty_object False) ?T)) = set ?T"
    using dist by (rule set_spread_empty)
  have es: "set (entries ?S) = set (filter (\<lambda>e. fst e \<noteq> key opts) ?T)"
    using sT by (auto simp: delete_property_def)
  have ds: "distinct (map fst (entries ?S))"
    using distinct_spread_empty [of False ?T] by (simp add: distinct_filter_keys delete_property_def)
  have pl: "\<not> is_array ?S" by simp
  have l: "length h2 < length ?h" by simp
  have lk: "lookup ?h (length h2) = ?S" by simp
  have oe: "Object_entries ?S = entries ?S" using pl by (rule Object_entries_plain)
  have sub: "fst ` set (entries ?S) \<subseteq> fst ` set ?T - {key opts}"
    using es by auto
  with inj have inj': "inj_on ?g (fst ` set (Object_entries (lookup ?h (length h2))))"
    unfolding lk oe by (rule inj_on_subset)
  have ds': "distinct (map fst (Object_entries (lookup ?h (length h2))))"
    unfolding lk oe by (rule ds)
  have "?g k \<noteq> ''__proto__''" if "k \<in> fst ` set (entries ?S)" for k
    using sub ord that by blast
  then have ord': "ordinary_writes ?g (lookup ?h (length h2))"
    unfolding lk ordinary_writes_def list_all_iff ordinary_key_def oe using pl by simp
  show ?thesis
  proof (rule replaceObjectKey_entries [OF l ds' inj' ord', of rt])
  fix b h'
  assume r: "replaceObjectKey rt (Ref (length h2)) ?g ?h = (Inr (Ref b), h')"
    and b: "b < length h'" "b = length h2 \<or> b = length ?h" and pre: "prefix ?h h'"
    and bs: "set (Object_entries (lookup h' b)) = set (rename ?g (Object_entries (lookup ?h (length h2))))"
    and bd: "distinct (map fst (Object_entries (lookup h' b)))"
    and ba: "is_array (lookup h' b) = is_array (lookup ?h (length h2))"
    and bi: "b \<noteq> length h2 \<Longrightarrow> inherited (lookup h' b) = [] \<and> proto_setter (lookup h' b)"
  have dec: "decode rt opts (Ref t) h2 = returned (fromPlainObject opts (Ref b) h')"
    unfolding decode_tagged [OF tagged] Let_def r by simp
  have bp: "\<not> is_array (lookup h' b)" using ba unfolding lk by simp
  have boe: "Object_entries (lookup h' b) = entries (lookup h' b)"
    using bp by (rule Object_entries_plain)
  have "set (rename ?g (entries ?S)) = set (rename ?g (filter (\<lambda>e. fst e \<noteq> key opts) ?T))"
    using es by (simp only: rename_set)
  then have bs': "set (entries (lookup h' b)) =
                    set (rename ?g (filter (\<lambda>e. fst e \<noteq> key opts) ?T))"
    using bs unfolding lk oe boe by simp
  have bin: "inherited (lookup h' b) = []"
  proof (cases "b = length h2")
    case True
    have "lookup h' (length h2) = lookup ?h (length h2)"
      using pre by (rule lookup_prefix) simp
    then show ?thesis unfolding True lk by simp
  next
    case False
    then show ?thesis using bi by simp
  qed
  show ?thesis
  proof (rule that [of b h'])
    show "decode rt opts (Ref t) h2 = returned (fromPlainObject opts (Ref b) h')" by (rule dec)
    show "b < length h'" by (rule b(1))
    show "length h2 \<le> b" using b(2) by auto
    show "prefix h2 h'" using pre by (auto simp: prefix_def)
    show "\<not> is_array (lookup h' b)" by (rule bp)
    show "inherited (lookup h' b) = []" by (rule bin)
    show "set (entries (lookup h' b)) =
            set (rename ?g (filter (\<lambda>e. fst e \<noteq> key opts) ?T))"
      by (rule bs')
    show "distinct (map fst (entries (lookup h' b)))" using bd unfolding boe .
  qed
qed
qed

lemma absent_key_entry: "k \<notin> fst ` set es \<Longrightarrow> (k, v) \<notin> set es"
  by force

section \<open>Collision safety\<close>

text \<open>
  C2. With the tag \<^verbatim>\<open>{key: "$type", value: "Error", escapeChar: "_"}\<close> and an
  \<^verbatim>\<open>isSource\<close> that rejects the plain object \<^verbatim>\<open>{ $type: 1, age: 12 }\<close>, \<^verbatim>\<open>encode\<close>
  returns a new object in which \<^verbatim>\<open>$type\<close> is renamed to \<^verbatim>\<open>_$type\<close> and no tag pair is
  added; \<^verbatim>\<open>decode\<close> finds that object untagged and returns, whatever \<^verbatim>\<open>fromPlainObject\<close>
  is, a new object equal to the original, with \<^verbatim>\<open>_$type\<close> restored to \<^verbatim>\<open>$type\<close>.
\<close>

theorem C2_collision_safety:
  assumes "key opts = ''$type''" and "value opts = TagString ''Error''"
    and "escapeCharacter opts = ''_''"
    and "a < length h"
    and "h ! a = \<lparr>is_array = False, len = 0,
                   entries = [(''$type'', Num (Finite 1)), (''age'', Num (Finite 12))],
                   inherited = [], proto_setter = True\<rparr>"
    and "\<not> isSource opts h (Ref a)"
  shows "encode rt opts (Ref a) h =
           (Inr (Ref (length h)),
            h @ [\<lparr>is_array = False, len = 0,
                  entries = [(''_$type'', Num (Finite 1)), (''age'', Num (Finite 12))],
                  inherited = [], proto_setter = True\<rparr>]) \<and>
         \<not> is_tagged opts (snd (encode rt opts (Ref a) h)) (Ref (length h)) \<and>
         (\<forall>f. decode rt (opts\<lparr>fromPlainObject := f\<rparr>) (Ref (length h))
                (snd (encode rt opts (Ref a) h)) =
              (Inr (Ref (length h + 1)), snd (encode rt opts (Ref a) h) @ [h ! a]))"
proof -
  let ?c = "\<lparr>is_array = False, len = 0,
             entries = [(''_$type'', Num (Finite 1)), (''age'', Num (Finite 12))],
             inherited = [], proto_setter = True\<rparr>"
  let ?f = "prependEscapeChar opts"
  let ?g = "removePrependedEscapeChar opts"
  have l: "lookup h a = h ! a" using assms(4) by (simp add: lookup_def)
  have oa: "Object_entries (lookup h a) = [(''$type'', Num (Finite 1)), (''age'', Num (Finite 12))]"
    by (simp add: l assms(5))
  have ow: "ordinary_writes ?f (lookup h a)"
    using assms(1,3) oa by (simp add: ordinary_writes_def ordinary_key_def dollar_type_keys)
  have e: "encode rt opts (Ref a) h = (Inr (Ref (length h)), h @ [?c])"
    unfolding encode_not_source [OF assms(6)] replaceObjectKey_ordinary [OF ow] oa
    using assms(1,3,5)
    by (simp add: l rename_def dollar_type_keys store_def define_own_def
        array_index_literals empty_object_def)
  have l1: "lookup (h @ [?c]) (length h) = ?c" by (simp add: lookup_def)
  have oc: "Object_entries (lookup (h @ [?c]) (length h)) =
              [(''_$type'', Num (Finite 1)), (''age'', Num (Finite 12))]"
    by (simp add: l1)
  have t: "\<not> is_tagged opts (h @ [?c]) (Ref (length h))"
    using assms(1,2) by (simp add: is_tagged_def isTargetType_def l1 get_property_def)
  have ow': "ordinary_writes ?g (lookup (h @ [?c]) (length h))"
    using assms(1,3) oc by (simp add: ordinary_writes_def ordinary_key_def dollar_type_keys)
  have d: "decode rt (opts\<lparr>fromPlainObject := f\<rparr>) (Ref (length h)) (h @ [?c]) =
             (Inr (Ref (length h + 1)), (h @ [?c]) @ [h ! a])" for f
  proof -
    have "\<not> is_tagged (opts\<lparr>fromPlainObject := f\<rparr>) (h @ [?c]) (Ref (length h))"
      using t by simp
    then show ?thesis
      unfolding decode_untagged [OF \<open>\<not> is_tagged (opts\<lparr>fromPlainObject := f\<rparr>) (h @ [?c]) (Ref (length h))\<close>]
        removePrependedEscapeChar_fromPlainObject replaceObjectKey_ordinary [OF ow'] oc
      using assms(1,3,5)
      by (simp add: l1 rename_def dollar_type_keys store_def define_own_def
          array_index_literals empty_object_def)
  qed
  show ?thesis using t d unfolding e by simp
qed

theorem C2_collision_safety_witness:
  "key errorEncoder = ''$type'' \<and> value errorEncoder = TagString ''Error'' \<and>
   escapeCharacter errorEncoder = ''_'' \<and> (0 :: nat) < length collision_heap \<and>
   \<not> isSource errorEncoder collision_heap (Ref 0) \<and>
   encode sample_runtime errorEncoder (Ref 0) collision_heap =
     (Inr (Ref 1),
      collision_heap @
      [\<lparr>is_array = False, len = 0,
        entries = [(''_$type'', Num (Finite 1)), (''age'', Num (Finite 12))],
        inherited = [], proto_setter = True\<rparr>]) \<and>
   \<not> is_tagged errorEncoder (snd (encode sample_runtime errorEncoder (Ref 0) collision_heap))
       (Ref 1) \<and>
   decode sample_runtime errorEncoder (Ref 1)
     (snd (encode sample_runtime errorEncoder (Ref 0) collision_heap)) =
     (Inr (Ref 2),
      snd (encode sample_runtime errorEncoder (Ref 0) collision_heap) @ [collision_heap ! 0])"
proof -
  have k: "key errorEncoder = ''$type''" and v: "value errorEncoder = TagString ''Error''"
    and e: "escapeCharacter errorEncoder = ''_''"
    by (simp_all add: errorEncoder_def)
  have a: "0 < length collision_heap" by (simp add: collision_heap_def)
  have o: "collision_heap ! 0 =
             \<lparr>is_array = False, len = 0,
              entries = [(''$type'', Num (Finite 1)), (''age'', Num (Finite 12))],
              inherited = [], proto_setter = True\<rparr>"
    by (simp add: collision_heap_def)
  have s: "\<not> isSource errorEncoder collision_heap (Ref 0)"
    by (simp add: errorEncoder_def is_error_def collision_heap_def lookup_def)
  have f: "errorEncoder\<lparr>fromPlainObject := fromPlainObject errorEncoder\<rparr> = errorEncoder"
    by simp
  have l: "length collision_heap = 1" by (simp add: collision_heap_def)
  have "1 + 1 = (2 :: nat)" by simp
  note C = C2_collision_safety [OF k v e a o s, of sample_runtime, unfolded l]
  note c1 = C [THEN conjunct1]
  note c2 = C [THEN conjunct2, THEN conjunct1]
  note c3' = C [THEN conjunct2, THEN conjunct2, THEN spec, of "fromPlainObject errorEncoder"]
  have c3: "decode sample_runtime errorEncoder (Ref 1)
     (snd (encode sample_runtime errorEncoder (Ref 0) collision_heap)) =
     (Inr (Ref 2),
      snd (encode sample_runtime errorEncoder (Ref 0) collision_heap) @ [collision_heap ! 0])"
    using c3' unfolding f \<open>1 + 1 = (2 :: nat)\<close> .
  show ?thesis using k v e a s c1 c2 c3 by (intro conjI)
qed

section \<open>Key escaping\<close>

text \<open>
  For a tag key that is not empty, \<^verbatim>\<open>prependEscapeChar\<close> renames exactly the tag-shaped
  keys, and where each assignment to the clone is ordinary the clone holds each value
  under the renamed key of its entry.
\<close>

lemma escaping_nonempty_key:
  assumes "key opts \<noteq> []" and "escapeCharacter opts \<noteq> []"
    and "ordinary_writes (prependEscapeChar opts) (lookup h a)"
  shows "prependEscapeChar opts k = (if tag_shaped opts k then escapeCharacter opts @ k else k)"
    and "replaceObjectKey rt (Ref a) (prependEscapeChar opts) h =
           (Inr (if \<exists>k\<in>fst ` set (Object_entries (lookup h a)). tag_shaped opts k
                 then Ref (length h) else Ref a),
            h @ [stores (empty_object (is_array (lookup h a)))
                   (rename (prependEscapeChar opts) (Object_entries (lookup h a)))])"
proof -
  show "prependEscapeChar opts k = (if tag_shaped opts k then escapeCharacter opts @ k else k)"
    using assms(1) by (rule prependEscapeChar_spec)
  have "(prependEscapeChar opts k \<noteq> k) = tag_shaped opts k" for k
    using assms(1,2) by (simp add: prependEscapeChar_spec)
  then show "replaceObjectKey rt (Ref a) (prependEscapeChar opts) h =
           (Inr (if \<exists>k\<in>fst ` set (Object_entries (lookup h a)). tag_shaped opts k
                 then Ref (length h) else Ref a),
            h @ [stores (empty_object (is_array (lookup h a)))
                   (rename (prependEscapeChar opts) (Object_entries (lookup h a)))])"
    by (simp add: replaceObjectKey_ordinary [OF assms(3)])
qed

text \<open>
  C3. A top-level key is replaced by the escape character followed by the key exactly
  when it is tag-shaped. With the empty string for tag key the key \<^verbatim>\<open>_\<close> is tag-shaped
  (\<open>n = 1\<close>, the trailing substring of length \<open>0\<close> is the tag key, the one character before
  it is the escape character), and the code leaves it as it is: \<^verbatim>\<open>str.slice(-0)\<close> is the
  whole string, not the empty one.
\<close>

theorem C3_empty_key:
  "tag_shaped emptyKeyEncoder ''_'' \<and>
   escapeCharacter emptyKeyEncoder @ ''_'' = ''__'' \<and>
   getEscapeCharCount emptyKeyEncoder ''_'' = - 1 \<and>
   prependEscapeChar emptyKeyEncoder ''_'' = ''_'' \<and>
   \<not> isSource emptyKeyEncoder underscore_heap (Ref 0) \<and>
   fst (encode sample_runtime emptyKeyEncoder (Ref 0) underscore_heap) = Inr (Ref 0)"
proof -
  have g: "getEscapeCharCount emptyKeyEncoder ''_'' = - 1"
    by (simp add: emptyKeyEncoder_def errorEncoder_def getEscapeCharCount_def slice_def)
  then have p: "prependEscapeChar emptyKeyEncoder ''_'' = ''_''"
    by (simp add: prependEscapeChar_def)
  have s: "\<not> isSource emptyKeyEncoder underscore_heap (Ref 0)"
    by (simp add: emptyKeyEncoder_def errorEncoder_def underscore_heap_def lookup_def
        is_error_def)
  have "top_level_keys underscore_heap (Ref 0) = [''_'']"
    by (simp add: top_level_keys_def underscore_heap_def lookup_def Object_entries_def)
  then have "\<forall>k\<in>set (top_level_keys underscore_heap (Ref 0)).
               prependEscapeChar emptyKeyEncoder k = k"
    using p by simp
  then have e: "fst (encode sample_runtime emptyKeyEncoder (Ref 0) underscore_heap) =
                  Inr (Ref 0)"
    unfolding encode_not_source [OF s] by (rule identity_returns)
  have t: "tag_shaped emptyKeyEncoder ''_''"
    by (simp add: tag_shaped_def emptyKeyEncoder_def errorEncoder_def)
  have c: "escapeCharacter emptyKeyEncoder @ ''_'' = ''__''"
    by (simp add: emptyKeyEncoder_def errorEncoder_def)
  show ?thesis using t c g p s e by (intro conjI)
qed
section \<open>Key unescaping\<close>

text \<open>
  For a tag key that is not empty, \<^verbatim>\<open>removePrependedEscapeChar\<close> strips the first
  character of exactly the escaped keys. With the tag key \<^verbatim>\<open>$type\<close> and the escape
  character \<^verbatim>\<open>_\<close>, one pass of escaping turns \<^verbatim>\<open>_$type\<close> into \<^verbatim>\<open>__$type\<close> and one
  pass of unescaping turns that back into \<^verbatim>\<open>_$type\<close>.
\<close>

lemma unescaping_nonempty_key:
  assumes "key opts \<noteq> []"
  shows "removePrependedEscapeChar opts k = (if escaped_shaped opts k then drop 1 k else k)"
proof -
  have "escaped_shaped opts k = (tag_shaped opts k \<and> length (key opts) < length k)"
    by (auto simp: escaped_shaped_def tag_shaped_def Let_def)
  then show ?thesis using assms by (simp add: removePrependedEscapeChar_spec)
qed

lemma escaping_depth:
  "prependEscapeChar errorEncoder ''_$type'' = ''__$type''"
  "removePrependedEscapeChar errorEncoder ''__$type'' = ''_$type''"
  "removePrependedEscapeChar errorEncoder ''__$type'' \<noteq> ''$type''"
  by (simp_all add: dollar_type_keys errorEncoder_def)

text \<open>
  C4. A top-level key has one leading escape character stripped exactly when it is
  escaped. With the empty string for tag key the key \<^verbatim>\<open>_\<close> is escaped (\<open>n = 1 > 0\<close>, the
  trailing substring of length \<open>0\<close> is the tag key, the one leading character is the
  escape character), and the code leaves it as it is, for the same \<^verbatim>\<open>str.slice(-0)\<close>.
\<close>

theorem C4_empty_key:
  "escaped_shaped emptyKeyEncoder ''_'' \<and>
   getEscapeCharCount emptyKeyEncoder ''_'' = - 1 \<and>
   removePrependedEscapeChar emptyKeyEncoder ''_'' = ''_'' \<and>
   \<not> is_tagged emptyKeyEncoder underscore_heap (Ref 0) \<and>
   fst (decode sample_runtime emptyKeyEncoder (Ref 0) underscore_heap) = Inr (Ref 0)"
proof -
  have g: "getEscapeCharCount emptyKeyEncoder ''_'' = - 1"
    by (simp add: emptyKeyEncoder_def errorEncoder_def getEscapeCharCount_def slice_def)
  then have p: "removePrependedEscapeChar emptyKeyEncoder ''_'' = ''_''"
    by (simp add: removePrependedEscapeChar_def)
  have t: "\<not> is_tagged emptyKeyEncoder underscore_heap (Ref 0)"
    by (simp add: emptyKeyEncoder_def errorEncoder_def underscore_heap_def lookup_def
        is_tagged_def isTargetType_def get_property_def Object_entries_def)
  have "top_level_keys underscore_heap (Ref 0) = [''_'']"
    by (simp add: top_level_keys_def underscore_heap_def lookup_def Object_entries_def)
  then have "\<forall>k\<in>set (top_level_keys underscore_heap (Ref 0)).
               removePrependedEscapeChar emptyKeyEncoder k = k"
    using p by simp
  then have d: "fst (decode sample_runtime emptyKeyEncoder (Ref 0) underscore_heap) =
                  Inr (Ref 0)"
    unfolding decode_untagged [OF t] by (rule identity_returns)
  have e: "escaped_shaped emptyKeyEncoder ''_''"
    by (simp add: escaped_shaped_def emptyKeyEncoder_def errorEncoder_def)
  show ?thesis using e g p t d by (intro conjI)
qed
section \<open>Pass-through\<close>

text \<open>
  C5. A value that is not a source value and has no tag-shaped top-level key is returned by
  \<^verbatim>\<open>encode\<close> as the same reference, and by \<^verbatim>\<open>decode\<close> as the same reference when it
  is not tagged.
\<close>

theorem C5_pass_through:
  assumes "\<not> isSource opts h v"
    and "\<forall>k\<in>set (top_level_keys h v). \<not> tag_shaped opts k"
  shows "fst (encode rt opts v h) = Inr v \<and>
         (\<not> is_tagged opts h v \<longrightarrow> fst (decode rt opts v h) = Inr v)"
proof -
  have "\<forall>k\<in>set (top_level_keys h v). prependEscapeChar opts k = k"
    using assms(2) prepend_unchanged by blast
  then have e: "fst (encode rt opts v h) = Inr v"
    using assms(1) by (simp add: encode_not_source identity_returns)
  have "\<forall>k\<in>set (top_level_keys h v). removePrependedEscapeChar opts k = k"
    using assms(2) remove_unchanged by blast
  then have "\<not> is_tagged opts h v \<longrightarrow> fst (decode rt opts v h) = Inr v"
    by (simp add: decode_untagged identity_returns)
  with e show ?thesis by simp
qed


theorem C5_pass_through_witness:
  "\<not> isSource errorEncoder plain_heap (Ref 0) \<and>
   top_level_keys plain_heap (Ref 0) = [''age'', ''name''] \<and>
   \<not> tag_shaped errorEncoder ''age'' \<and> \<not> tag_shaped errorEncoder ''name'' \<and>
   \<not> is_tagged errorEncoder plain_heap (Ref 0) \<and>
   fst (encode sample_runtime errorEncoder (Ref 0) plain_heap) = Inr (Ref 0) \<and>
   fst (decode sample_runtime errorEncoder (Ref 0) plain_heap) = Inr (Ref 0)"
proof -
  have s: "\<not> isSource errorEncoder plain_heap (Ref 0)"
    by (simp add: errorEncoder_def is_error_def plain_heap_def lookup_def)
  have l: "top_level_keys plain_heap (Ref 0) = [''age'', ''name'']"
    by (simp add: top_level_keys_def plain_heap_def lookup_def)
  have n: "\<not> tag_shaped errorEncoder ''age''" "\<not> tag_shaped errorEncoder ''name''"
    by (simp_all add: tag_shaped_def errorEncoder_def)
  have k: "\<forall>k\<in>set (top_level_keys plain_heap (Ref 0)). \<not> tag_shaped errorEncoder k"
    using n by (simp add: l)
  have t: "\<not> is_tagged errorEncoder plain_heap (Ref 0)"
    by (simp add: is_tagged_def isTargetType_def get_property_def plain_heap_def lookup_def
        errorEncoder_def)
  show ?thesis using s l n t C5_pass_through [OF s k, of sample_runtime] by simp
qed
section \<open>Decoding what is not tagged\<close>

lemma count_positive_escaped: "getEscapeCharCount opts k > 0 \<Longrightarrow> escaped_shaped opts k"
proof -
  assume p: "getEscapeCharCount opts k > 0"
  then have "getEscapeCharCount opts k \<noteq> - 1" by simp
  then have t: "tag_shaped opts k" by (rule getEscapeCharCount_tag_shaped)
  from p getEscapeCharCount_range [of opts k]
  have "int (length k) - int (length (key opts)) > 0" by auto
  with t show ?thesis by (simp add: escaped_shaped_def tag_shaped_def Let_def)
qed

lemma remove_unchanged_escaped:
  "\<not> escaped_shaped opts k \<Longrightarrow> removePrependedEscapeChar opts k = k"
  using count_positive_escaped [of opts k] by (auto simp: removePrependedEscapeChar_def)

lemma remove_changes:
  assumes "key opts \<noteq> []" "escaped_shaped opts k"
  shows "removePrependedEscapeChar opts k \<noteq> k"
proof -
  have "k \<noteq> []" using assms(2) by (auto simp: escaped_shaped_def Let_def)
  then have "length (drop 1 k) \<noteq> length k" by (cases k) auto
  then have "drop 1 k \<noteq> k" by (rule contrapos_nn) (simp only:)
  then show ?thesis using assms by (simp add: unescaping_nonempty_key)
qed

lemma remove_unescaped: "key opts \<noteq> [] \<Longrightarrow> removePrependedEscapeChar opts = unescaped_key opts"
  by (simp add: fun_eq_iff unescaping_nonempty_key unescaped_key_def)

lemma get_property_own:
  "distinct (map fst (Object_entries ob)) \<Longrightarrow> (k, v) \<in> set (Object_entries ob) \<Longrightarrow>
   get_property ob k = v"
  by (simp add: get_property_def)

lemma renamed_clone:
  assumes d: "distinct (map f (map fst (Object_entries ob)))"
    and o: "ordinary_writes f ob"
  shows "set (Object_entries (stores (empty_object (is_array ob)) (rename f (Object_entries ob)))) =
           set (rename f (Object_entries ob))"
    and "distinct (map fst (Object_entries
           (stores (empty_object (is_array ob)) (rename f (Object_entries ob)))))"
    and "list_all (\<lambda>(k, v). get_property
           (stores (empty_object (is_array ob)) (rename f (Object_entries ob))) (f k) = v)
           (Object_entries ob)"
proof -
  let ?E = "Object_entries ob"
  let ?C = "stores (empty_object (is_array ob)) (rename f ?E)"
  have dr: "distinct (map fst (rename f ?E))" using d by (simp add: map_fst_rename)
  have oc: "Object_entries ?C = entries (spread (empty_object (is_array ob)) (rename f ?E))"
    using o by (rule Object_entries_clone)
  show s: "set (Object_entries ?C) = set (rename f ?E)"
    unfolding oc using dr by (rule set_spread_empty)
  show dc: "distinct (map fst (Object_entries ?C))"
    unfolding oc by (rule distinct_spread_empty)
  have "get_property ?C (f k) = v" if "(k, v) \<in> set ?E" for k v
  proof -
    have "(f k, v) \<in> set (rename f ?E)" using that by (force simp: rename_set)
    then have "(f k, v) \<in> set (Object_entries ?C)" using s by simp
    with dc show ?thesis by (rule get_property_own)
  qed
  then show "list_all (\<lambda>(k, v). get_property ?C (f k) = v) ?E"
    by (auto simp: list_all_iff)
qed

text \<open>
  C8 as stated: \<^verbatim>\<open>decode\<close> is the identity on every value that is not tagged. The
  untagged object \<^verbatim>\<open>{ _$type: 1, age: 12 }\<close> is decoded to a new object
  \<^verbatim>\<open>{ $type: 1, age: 12 }\<close>.
\<close>

theorem C8_counterexample:
  "\<not> is_tagged errorEncoder escaped_heap (Ref 0) \<and>
   decode sample_runtime errorEncoder (Ref 0) escaped_heap =
     (Inr (Ref 1),
      escaped_heap @
      [\<lparr>is_array = False, len = 0,
        entries = [(''$type'', Num (Finite 1)), (''age'', Num (Finite 12))],
        inherited = [], proto_setter = True\<rparr>]) \<and>
   fst (decode sample_runtime errorEncoder (Ref 0) escaped_heap) \<noteq> Inr (Ref 0)"
  by code_simp

text \<open>
  C8, amended. On a value that is not tagged, \<^verbatim>\<open>decode\<close> returns the value itself when
  no top-level key is escaped. When some top-level key is escaped, the tag key is not
  empty, no two top-level keys are the same once the escaped ones have lost their first
  character, and none of them is then \<^verbatim>\<open>__proto__\<close> or, in an array, \<^verbatim>\<open>length\<close>, it
  returns a new container of the same kind whose entries are those of the value with each
  escaped key without its first character: every value is kept, and read under that key.
\<close>

theorem C8_decode_untagged:
  assumes "\<not> is_tagged opts h x"
  shows "(\<not> list_ex (escaped_shaped opts) (top_level_keys h x) \<longrightarrow>
            fst (decode rt opts x h) = Inr x) \<and>
         (key opts \<noteq> [] \<and> list_ex (escaped_shaped opts) (top_level_keys h x) \<and>
          distinct (map (unescaped_key opts) (top_level_keys h x)) \<and>
          writes_ordinarily (unescaped_key opts) h x \<longrightarrow>
            (\<exists>a clone. x = Ref a \<and>
               decode rt opts x h = (Inr (Ref (length h)), h @ [clone]) \<and>
               is_array clone = is_array (lookup h a) \<and>
               set (Object_entries clone) =
                 set (rename (unescaped_key opts) (Object_entries (lookup h a))) \<and>
               list_all (\<lambda>(k, v). get_property clone (unescaped_key opts k) = v)
                 (Object_entries (lookup h a))))"
proof (intro conjI impI)
  assume "\<not> list_ex (escaped_shaped opts) (top_level_keys h x)"
  then have "\<forall>k\<in>set (top_level_keys h x). removePrependedEscapeChar opts k = k"
    by (simp add: list_ex_iff remove_unchanged_escaped)
  then show "fst (decode rt opts x h) = Inr x"
    unfolding decode_untagged [OF assms] by (rule identity_returns)
next
  assume a: "key opts \<noteq> [] \<and> list_ex (escaped_shaped opts) (top_level_keys h x) \<and>
          distinct (map (unescaped_key opts) (top_level_keys h x)) \<and>
          writes_ordinarily (unescaped_key opts) h x"
  let ?f = "unescaped_key opts"
  have f: "removePrependedEscapeChar opts = ?f" using a by (simp add: remove_unescaped)
  from a obtain k where k: "k \<in> set (top_level_keys h x)" "escaped_shaped opts k"
    by (auto simp: list_ex_iff)
  then obtain a' where x: "x = Ref a'" by (cases x) (auto simp: top_level_keys_def)
  let ?E = "Object_entries (lookup h a')"
  let ?C = "stores (empty_object (is_array (lookup h a'))) (rename ?f ?E)"
  have ex: "\<exists>k\<in>fst ` set ?E. ?f k \<noteq> k"
    using k a remove_changes [of opts k] unfolding f by (auto simp: x top_level_keys_def)
  have o: "ordinary_writes ?f (lookup h a')" using a by (simp add: x writes_ordinarily_def)
  have d: "distinct (map ?f (map fst ?E))" using a by (simp add: x top_level_keys_def)
  have dec: "decode rt opts x h = (Inr (Ref (length h)), h @ [?C])"
    unfolding decode_untagged [OF assms] f unfolding x replaceObjectKey_ordinary [OF o]
    using ex by simp
  have arr: "is_array ?C = is_array (lookup h a')" by simp
  from x dec arr renamed_clone(1) [OF d o] renamed_clone(3) [OF d o]
  show "\<exists>a clone. x = Ref a \<and>
               decode rt opts x h = (Inr (Ref (length h)), h @ [clone]) \<and>
               is_array clone = is_array (lookup h a) \<and>
               set (Object_entries clone) =
                 set (rename (unescaped_key opts) (Object_entries (lookup h a))) \<and>
               list_all (\<lambda>(k, v). get_property clone (unescaped_key opts k) = v)
                 (Object_entries (lookup h a))"
    by blast
qed

theorem C8_decode_untagged_witness:
  "\<not> is_tagged errorEncoder plain_heap (Ref 0) \<and>
   \<not> list_ex (escaped_shaped errorEncoder) (top_level_keys plain_heap (Ref 0)) \<and>
   fst (decode sample_runtime errorEncoder (Ref 0) plain_heap) = Inr (Ref 0) \<and>
   \<not> is_tagged errorEncoder escaped_heap (Ref 0) \<and>
   key errorEncoder \<noteq> [] \<and>
   list_ex (escaped_shaped errorEncoder) (top_level_keys escaped_heap (Ref 0)) \<and>
   distinct (map (unescaped_key errorEncoder) (top_level_keys escaped_heap (Ref 0))) \<and>
   writes_ordinarily (unescaped_key errorEncoder) escaped_heap (Ref 0) \<and>
   (\<exists>a clone. Ref 0 = Ref a \<and>
      decode sample_runtime errorEncoder (Ref 0) escaped_heap =
        (Inr (Ref (length escaped_heap)), escaped_heap @ [clone]) \<and>
      is_array clone = is_array (lookup escaped_heap a) \<and>
      set (Object_entries clone) =
        set (rename (unescaped_key errorEncoder) (Object_entries (lookup escaped_heap a))) \<and>
      list_all (\<lambda>(k, v). get_property clone (unescaped_key errorEncoder k) = v)
        (Object_entries (lookup escaped_heap a)))"
proof -
  have t1: "\<not> is_tagged errorEncoder plain_heap (Ref 0)" by code_simp
  have n1: "\<not> list_ex (escaped_shaped errorEncoder) (top_level_keys plain_heap (Ref 0))"
    by code_simp
  have t2: "\<not> is_tagged errorEncoder escaped_heap (Ref 0)" by code_simp
  have k: "key errorEncoder \<noteq> []" by (simp add: errorEncoder_def)
  have e2: "list_ex (escaped_shaped errorEncoder) (top_level_keys escaped_heap (Ref 0))"
    by code_simp
  have d2: "distinct (map (unescaped_key errorEncoder) (top_level_keys escaped_heap (Ref 0)))"
    by code_simp
  have o2: "writes_ordinarily (unescaped_key errorEncoder) escaped_heap (Ref 0)"
    by code_simp
  note r1 = C8_decode_untagged [OF t1, of sample_runtime, THEN conjunct1, rule_format, OF n1]
  note r2 = C8_decode_untagged [OF t2, of sample_runtime, THEN conjunct2, rule_format,
      OF conjI [OF k conjI [OF e2 conjI [OF d2 o2]]]]
  show ?thesis using t1 n1 r1 t2 k e2 d2 o2 r2 by (intro conjI)
qed

section \<open>Tag detection\<close>

text \<open>
  C6 as stated: \<^verbatim>\<open>decode\<close> applies \<^verbatim>\<open>fromPlainObject\<close> to a container exactly when the
  container has an own entry with the tag key and the tag value. With the tag
  \<^verbatim>\<open>{key: "name", value: "Error"}\<close> an instance of \<^verbatim>\<open>Error\<close> has no own entry at all, its
  read of \<^verbatim>\<open>name\<close> finds the inherited \<^verbatim>\<open>"Error"\<close>, and \<^verbatim>\<open>decode\<close> passes an empty
  object to \<^verbatim>\<open>fromPlainObject\<close>.
\<close>

theorem C6_counterexample:
  "\<not> has_tag_entry nameEncoder error_heap (Ref 0) \<and>
   is_tagged nameEncoder error_heap (Ref 0) \<and>
   decode sample_runtime nameEncoder (Ref 0) error_heap =
     returned (fromPlainObject nameEncoder (Ref 1)
       (error_heap @ [empty_object False, empty_object False]))"
  by (simp add: has_tag_entry_def is_tagged_def isTargetType_def get_property_def
      error_heap_def lookup_def nameEncoder_def errorEncoder_def decode_def
      replaceObjectKey_def empty_object_def delete_property_def Object_entries_def)

text \<open>
  C6, amended. \<^verbatim>\<open>decode\<close> applies \<^verbatim>\<open>fromPlainObject\<close> to a container (to its copy without
  the tag key, unescaped) exactly when the read of the tag key on the container, which
  finds an own property or else an inherited or non-enumerable one, is strictly equal to
  the tag value: then the read is the tag value; an own entry with the tag key and the tag
  value, or any read that is the tag value, triggers it unless the tag value is \<open>NaN\<close>;
  and the result for a container that fails the test does not depend on
  \<^verbatim>\<open>fromPlainObject\<close>.
\<close>

theorem C6_tag_detection:
  "(is_tagged opts h (Ref a) \<longrightarrow>
      get_property (lookup h a) (key opts) = val_of_tag (value opts) \<and>
      (\<exists>u h2.
         replaceObjectKey rt (Ref (length h)) (removePrependedEscapeChar opts)
           (h @ [delete_property (spread (empty_object False) (Object_entries (lookup h a)))
                   (key opts)]) = (Inr u, h2) \<and>
         decode rt opts (Ref a) h = returned (fromPlainObject opts u h2))) \<and>
   (\<not> is_tagged opts h (Ref a) \<longrightarrow>
      (\<forall>f. decode rt (opts\<lparr>fromPlainObject := f\<rparr>) (Ref a) h = decode rt opts (Ref a) h)) \<and>
   (has_tag_entry opts h (Ref a) \<and> distinct (map fst (Object_entries (lookup h a))) \<and>
    (value opts \<noteq> TagNumber NaN) \<longrightarrow> is_tagged opts h (Ref a)) \<and>
   (get_property (lookup h a) (key opts) = val_of_tag (value opts) \<and>
    (value opts \<noteq> TagNumber NaN) \<longrightarrow> is_tagged opts h (Ref a))"
proof (intro conjI impI allI)
  assume t: "is_tagged opts h (Ref a)"
  then show "get_property (lookup h a) (key opts) = val_of_tag (value opts)"
    by (simp add: is_tagged_def isTargetType_def strict_equal_eq)
  let ?S = "delete_property (spread (empty_object False) (Object_entries (lookup h a)))
              (key opts)"
  have "\<not> is_array (lookup (h @ [?S]) (length h))" by simp
  from replaceObjectKey_plain [OF this, of rt "removePrependedEscapeChar opts"]
  obtain u h2 where r: "replaceObjectKey rt (Ref (length h)) (removePrependedEscapeChar opts)
      (h @ [?S]) = (Inr u, h2)"
    by blast
  have "decode rt opts (Ref a) h = returned (fromPlainObject opts u h2)"
    unfolding decode_tagged [OF t] Let_def r by simp
  with r show "\<exists>u h2.
         replaceObjectKey rt (Ref (length h)) (removePrependedEscapeChar opts)
           (h @ [?S]) = (Inr u, h2) \<and>
         decode rt opts (Ref a) h = returned (fromPlainObject opts u h2)"
    by blast
next
  fix f
  assume "\<not> is_tagged opts h (Ref a)"
  then show "decode rt (opts\<lparr>fromPlainObject := f\<rparr>) (Ref a) h = decode rt opts (Ref a) h"
    by (simp add: decode_untagged)
next
  assume a: "has_tag_entry opts h (Ref a) \<and> distinct (map fst (Object_entries (lookup h a))) \<and>
    (value opts \<noteq> TagNumber NaN)"
  then have "map_of (Object_entries (lookup h a)) (key opts) = Some (val_of_tag (value opts))"
    by (simp add: has_tag_entry_def)
  moreover have "val_of_tag (value opts) \<noteq> Num NaN" using a by (cases "value opts") auto
  ultimately show "is_tagged opts h (Ref a)"
    by (simp add: is_tagged_def isTargetType_def get_property_def strict_equal_eq)
next
  assume a: "get_property (lookup h a) (key opts) = val_of_tag (value opts) \<and>
    (value opts \<noteq> TagNumber NaN)"
  then have "val_of_tag (value opts) \<noteq> Num NaN" by (cases "value opts") auto
  with a show "is_tagged opts h (Ref a)"
    by (simp add: is_tagged_def isTargetType_def strict_equal_eq)
qed

theorem C6_tag_detection_witness:
  "is_tagged errorEncoder tagged_heap (Ref 0) \<and>
   get_property (lookup tagged_heap 0) (key errorEncoder) = val_of_tag (value errorEncoder) \<and>
   (\<exists>u h2.
      replaceObjectKey sample_runtime (Ref (length tagged_heap))
        (removePrependedEscapeChar errorEncoder)
        (tagged_heap @
         [delete_property (spread (empty_object False) (Object_entries (lookup tagged_heap 0)))
            (key errorEncoder)]) = (Inr u, h2) \<and>
      decode sample_runtime errorEncoder (Ref 0) tagged_heap =
        returned (fromPlainObject errorEncoder u h2)) \<and>
   \<not> is_tagged errorEncoder plain_heap (Ref 0) \<and>
   (\<forall>f. decode sample_runtime (errorEncoder\<lparr>fromPlainObject := f\<rparr>) (Ref 0) plain_heap =
        decode sample_runtime errorEncoder (Ref 0) plain_heap) \<and>
   has_tag_entry errorEncoder tagged_heap (Ref 0) \<and>
   distinct (map fst (Object_entries (lookup tagged_heap 0))) \<and>
   (value errorEncoder \<noteq> TagNumber NaN)"
proof -
  have e: "has_tag_entry errorEncoder tagged_heap (Ref 0)"
    by (simp add: has_tag_entry_def tagged_heap_def lookup_def errorEncoder_def)
  have d: "distinct (map fst (Object_entries (lookup tagged_heap 0)))"
    by (simp add: tagged_heap_def lookup_def)
  have v: "value errorEncoder \<noteq> TagNumber NaN" by (simp add: errorEncoder_def)
  have n: "\<not> is_tagged errorEncoder plain_heap (Ref 0)"
    by (simp add: is_tagged_def isTargetType_def get_property_def plain_heap_def lookup_def
        errorEncoder_def)
  note T = C6_tag_detection [of errorEncoder tagged_heap 0 sample_runtime]
  note P = C6_tag_detection [of errorEncoder plain_heap 0 sample_runtime]
  from T [THEN conjunct2, THEN conjunct2, THEN conjunct1] e d v
  have t: "is_tagged errorEncoder tagged_heap (Ref 0)" by simp
  from T [THEN conjunct1, rule_format, OF t]
  have g: "get_property (lookup tagged_heap 0) (key errorEncoder) = val_of_tag (value errorEncoder)"
    and r: "\<exists>u h2.
      replaceObjectKey sample_runtime (Ref (length tagged_heap))
        (removePrependedEscapeChar errorEncoder)
        (tagged_heap @
         [delete_property (spread (empty_object False) (Object_entries (lookup tagged_heap 0)))
            (key errorEncoder)]) = (Inr u, h2) \<and>
      decode sample_runtime errorEncoder (Ref 0) tagged_heap =
        returned (fromPlainObject errorEncoder u h2)"
    by (rule conjunct1, rule conjunct2)
  from P [THEN conjunct2, THEN conjunct1, rule_format, OF n]
  have f: "\<forall>f. decode sample_runtime (errorEncoder\<lparr>fromPlainObject := f\<rparr>) (Ref 0) plain_heap =
        decode sample_runtime errorEncoder (Ref 0) plain_heap"
    by (rule allI)
  show ?thesis using t g r n f e d v by (intro conjI)
qed
section \<open>The input is never written\<close>








section \<open>Round trip\<close>

text \<open>
  C1 as stated: for every source value, decoding the encoded value gives a value
  observationally equal to it, the converters being inverse to each other. With a
  \<^verbatim>\<open>toPlainObject\<close> that returns the code \<open>5\<close> of an error and a \<^verbatim>\<open>fromPlainObject\<close> that
  builds an error with the code it is given, the converters are inverse on the code, and
  the round trip yields an error whose code is an empty object.
\<close>

theorem C1_counterexample:
  "isSource codeEncoder code_heap (Ref 0) \<and>
   (let (p, h1) = toPlainObject codeEncoder (Ref 0) code_heap;
        (s', h2) = fromPlainObject codeEncoder p h1
    in read_property h2 s' ''code'' = read_property code_heap (Ref 0) ''code'') \<and>
   (\<exists>e h1 d h2.
      encode sample_runtime codeEncoder (Ref 0) code_heap = (Inr e, h1) \<and>
      decode sample_runtime codeEncoder e h1 = (Inr d, h2) \<and>
      read_property h2 d ''code'' \<noteq> read_property code_heap (Ref 0) ''code'' \<and>
      read_property h2 d ''code'' = Ref 2 \<and> lookup h2 2 = empty_object False)"
proof -
  have a: "isSource codeEncoder code_heap (Ref 0)" by code_simp
  have b: "(let (p, h1) = toPlainObject codeEncoder (Ref 0) code_heap;
        (s', h2) = fromPlainObject codeEncoder p h1
    in read_property h2 s' ''code'' = read_property code_heap (Ref 0) ''code'')"
    by code_simp
  have e: "encode sample_runtime codeEncoder (Ref 0) code_heap =
             (Inr (Ref 1), code_heap @ [set_property (empty_object False) ''$type'' (Str ''Error'')])"
    by code_simp
  have d: "decode sample_runtime codeEncoder (Ref 1)
             (code_heap @ [set_property (empty_object False) ''$type'' (Str ''Error'')]) =
           (Inr (Ref 4),
            code_heap @ [set_property (empty_object False) ''$type'' (Str ''Error''),
              empty_object False, empty_object False,
              \<lparr>is_array = False, len = 0, entries = [(''code'', Ref 2)],
               inherited = [(''name'', Str ''Error'')], proto_setter = True\<rparr>])"
    by code_simp
  have r: "read_property (code_heap @ [set_property (empty_object False) ''$type'' (Str ''Error''),
              empty_object False, empty_object False,
              \<lparr>is_array = False, len = 0, entries = [(''code'', Ref 2)],
               inherited = [(''name'', Str ''Error'')], proto_setter = True\<rparr>]) (Ref 4) ''code'' \<noteq>
            read_property code_heap (Ref 0) ''code''"
    "read_property (code_heap @ [set_property (empty_object False) ''$type'' (Str ''Error''),
              empty_object False, empty_object False,
              \<lparr>is_array = False, len = 0, entries = [(''code'', Ref 2)],
               inherited = [(''name'', Str ''Error'')], proto_setter = True\<rparr>]) (Ref 4) ''code'' = Ref 2"
    "lookup (code_heap @ [set_property (empty_object False) ''$type'' (Str ''Error''),
              empty_object False, empty_object False,
              \<lparr>is_array = False, len = 0, entries = [(''code'', Ref 2)],
               inherited = [(''name'', Str ''Error'')], proto_setter = True\<rparr>]) 2 = empty_object False"
    by code_simp+
  from e d r have "\<exists>e h1 d h2.
      encode sample_runtime codeEncoder (Ref 0) code_heap = (Inr e, h1) \<and>
      decode sample_runtime codeEncoder e h1 = (Inr d, h2) \<and>
      read_property h2 d ''code'' \<noteq> read_property code_heap (Ref 0) ''code'' \<and>
      read_property h2 d ''code'' = Ref 2 \<and> lookup h2 2 = empty_object False"
    by blast
  with a b show ?thesis by (intro conjI)
qed

text \<open>
  C1, amended. Take a source value whose plain representation is a keyed container with
  distinct keys, none of them \<^verbatim>\<open>__proto__\<close>, none of them turned into \<^verbatim>\<open>__proto__\<close> by
  the escaping and, the representation being an array, none turned into \<^verbatim>\<open>length\<close>;
  and a tag key that is not empty, an escape character of one code unit and a tag value
  other than \<open>NaN\<close>. Then \<^verbatim>\<open>encode\<close> returns a container, and decoding it is
  \<^verbatim>\<open>fromPlainObject\<close> applied to a new plain object, not an array, that has exactly the
  own enumerable entries of the plain representation, key by key and value by value.
\<close>

theorem C1_round_trip:
  assumes src: "isSource opts h s"
    and conv: "toPlainObject opts s h = (Ref p, h1)"
    and p: "p < length h1"
    and dist: "distinct (map fst (Object_entries (lookup h1 p)))"
    and esc: "length (escapeCharacter opts) = 1"
    and key: "key opts \<noteq> []"
    and nan: "value opts \<noteq> TagNumber NaN"
    and np: "''__proto__'' \<notin> fst ` set (Object_entries (lookup h1 p))"
    and ord: "ordinary_writes (prependEscapeChar opts) (lookup h1 p)"
  shows "\<exists>t h2 r h3.
           encode rt opts s h = (Inr (Ref t), h2) \<and>
           decode rt opts (Ref t) h2 = returned (fromPlainObject opts (Ref r) h3) \<and>
           r < length h3 \<and> length h1 \<le> r \<and> prefix h1 h3 \<and>
           \<not> is_array (lookup h3 r) \<and> inherited (lookup h3 r) = [] \<and>
           distinct (map fst (entries (lookup h3 r))) \<and>
           set (entries (lookup h3 r)) = set (Object_entries (lookup h1 p)) \<and>
           map_of (entries (lookup h3 r)) = map_of (Object_entries (lookup h1 p))"
proof -
  let ?f = "prependEscapeChar opts"
  let ?g = "removePrependedEscapeChar opts"
  let ?E = "Object_entries (lookup h1 p)"
  from esc obtain c where c: "escapeCharacter opts = [c]"
    by (cases "escapeCharacter opts") auto
  have gf: "?g (?f k) = k" for k using c key by (rule remove_prepend)
  show ?thesis
  proof (rule encode_source_object [OF src conv p dist c key ord, of rt])
    fix t h2
    assume enc: "encode rt opts s h = (Inr (Ref t), h2)"
      and t: "t < length h2" and pre: "prefix h1 h2"
      and pl: "\<not> is_array (lookup h2 t)"
      and st: "set (entries (lookup h2 t)) =
                 insert (key opts, val_of_tag (value opts)) (set (rename ?f ?E))"
      and dt: "distinct (map fst (entries (lookup h2 t)))"
    have oe: "Object_entries (lookup h2 t) = entries (lookup h2 t)"
      using pl by (rule Object_entries_plain)
    have tag: "(key opts, val_of_tag (value opts)) \<in> set (Object_entries (lookup h2 t))"
      using st by (simp add: oe)
    have dt': "distinct (map fst (Object_entries (lookup h2 t)))" using dt by (simp add: oe)
    have keys: "fst ` set (Object_entries (lookup h2 t)) =
                  insert (key opts) (?f ` fst ` set ?E)"
      using st rename_keys [of ?f ?E] by (simp add: oe)
    have "inj_on ?g (?f ` fst ` set ?E)"
      by (rule inj_on_inverseI [where g = ?f]) (auto simp: gf)
    then have inj: "inj_on ?g (fst ` set (Object_entries (lookup h2 t)) - {key opts})"
      by (rule inj_on_subset) (use keys in auto)
    have o: "\<forall>k\<in>fst ` set (Object_entries (lookup h2 t)) - {key opts}. ?g k \<noteq> ''__proto__''"
    proof
      fix k assume "k \<in> fst ` set (Object_entries (lookup h2 t)) - {key opts}"
      then obtain k' where k': "k' \<in> fst ` set ?E" "k = ?f k'" using keys by auto
      then have "?g k = k'" by (simp add: gf)
      moreover have "k' \<noteq> ''__proto__''" using k'(1) np by blast
      ultimately show "?g k \<noteq> ''__proto__''" by simp
    qed
    show ?thesis
    proof (rule decode_tagged_object [OF t dt' tag nan inj o, of rt])
      fix r h3
      assume dec: "decode rt opts (Ref t) h2 = returned (fromPlainObject opts (Ref r) h3)"
        and r: "r < length h3" "length h2 \<le> r" and pre': "prefix h2 h3"
        and arr: "\<not> is_array (lookup h3 r)" and inh: "inherited (lookup h3 r) = []"
        and sr: "set (entries (lookup h3 r)) =
                   set (rename ?g (filter (\<lambda>e. fst e \<noteq> key opts)
                          (Object_entries (lookup h2 t))))"
        and dr: "distinct (map fst (entries (lookup h3 r)))"
      have nk: "key opts \<notin> fst ` set (rename ?f ?E)"
      proof
        assume "key opts \<in> fst ` set (rename ?f ?E)"
        then obtain k where "key opts = ?f k" by (auto simp: rename_keys)
        then show False using prepend_neq_key [OF c key, of k] by simp
      qed
      have "set (filter (\<lambda>e. fst e \<noteq> key opts) (Object_entries (lookup h2 t))) =
              set (rename ?f ?E)"
        using st absent_key_entry [OF nk] unfolding oe by auto
      then have "set (rename ?g (filter (\<lambda>e. fst e \<noteq> key opts)
                        (Object_entries (lookup h2 t)))) =
                 set (rename ?g (rename ?f ?E))"
        by (simp only: rename_set)
      also have "rename ?g (rename ?f ?E) = ?E"
        by (simp add: rename_rename rename_id gf)
      finally have se: "set (entries (lookup h3 r)) = set ?E" using sr by simp
      have me: "map_of (entries (lookup h3 r)) = map_of ?E"
        using dr dist se by (simp add: map_of_inject_set)
      have "length h1 \<le> length h2" using pre by (rule prefix_length_le)
      then have l1: "length h1 \<le> r" using r(2) by simp
      have p1: "prefix h1 h3" using pre pre' by (rule prefix_order.trans)
      from enc dec r(1) l1 p1 arr inh dr se me show ?thesis by blast
    qed
  qed
qed

theorem C1_round_trip_witness:
  "isSource errorEncoder error_heap (Ref 0) \<and>
   toPlainObject errorEncoder (Ref 0) error_heap = (Ref 1, error_heap @ [error_payload]) \<and>
   (1 :: nat) < length (error_heap @ [error_payload]) \<and>
   distinct (map fst (Object_entries (lookup (error_heap @ [error_payload]) 1))) \<and>
   length (escapeCharacter errorEncoder) = 1 \<and>
   key errorEncoder \<noteq> [] \<and>
   (value errorEncoder \<noteq> TagNumber NaN) \<and>
   ''__proto__'' \<notin> fst ` set (Object_entries (lookup (error_heap @ [error_payload]) 1)) \<and>
   ordinary_writes (prependEscapeChar errorEncoder) (lookup (error_heap @ [error_payload]) 1) \<and>
   (\<exists>t h2 r h3.
      encode sample_runtime errorEncoder (Ref 0) error_heap = (Inr (Ref t), h2) \<and>
      decode sample_runtime errorEncoder (Ref t) h2 =
        returned (fromPlainObject errorEncoder (Ref r) h3) \<and>
      r < length h3 \<and> length (error_heap @ [error_payload]) \<le> r \<and>
      prefix (error_heap @ [error_payload]) h3 \<and>
      \<not> is_array (lookup h3 r) \<and> inherited (lookup h3 r) = [] \<and>
      distinct (map fst (entries (lookup h3 r))) \<and>
      set (entries (lookup h3 r)) =
        set (Object_entries (lookup (error_heap @ [error_payload]) 1)) \<and>
      map_of (entries (lookup h3 r)) =
        map_of (Object_entries (lookup (error_heap @ [error_payload]) 1)))"
proof -
  have s: "isSource errorEncoder error_heap (Ref 0)"
    by (simp add: errorEncoder_def is_error_def error_heap_def lookup_def)
  have c: "toPlainObject errorEncoder (Ref 0) error_heap = (Ref 1, error_heap @ [error_payload])"
    by code_simp
  have p: "(1 :: nat) < length (error_heap @ [error_payload])"
    by (simp add: error_heap_def)
  have l: "lookup (error_heap @ [error_payload]) 1 = error_payload"
    by (simp add: lookup_def error_heap_def)
  have oe: "Object_entries error_payload =
              [(''name'', Str ''Error''), (''message'', Str ''msg''),
               (''stack'', Str ''Error: msg'')]"
    by (simp add: error_payload_def Object_entries_def)
  have d: "distinct (map fst (Object_entries (lookup (error_heap @ [error_payload]) 1)))"
    unfolding l oe by simp
  have e: "length (escapeCharacter errorEncoder) = 1" and k: "key errorEncoder \<noteq> []"
    and v: "value errorEncoder \<noteq> TagNumber NaN"
    by (simp_all add: errorEncoder_def)
  have n: "''__proto__'' \<notin> fst ` set (Object_entries (lookup (error_heap @ [error_payload]) 1))"
    unfolding l oe by simp
  have o: "ordinary_writes (prependEscapeChar errorEncoder)
             (lookup (error_heap @ [error_payload]) 1)"
    unfolding l by code_simp
  note r = C1_round_trip [OF s c p d e k v n o, of sample_runtime]
  show ?thesis using s c p d e k v n o r by (intro conjI)
qed

section \<open>Arrays\<close>

lemma map_of_unique:
  "(k, v) \<in> set xs \<Longrightarrow> (\<And>v'. (k, v') \<in> set xs \<Longrightarrow> v' = v) \<Longrightarrow> map_of xs k = Some v"
proof (induction xs)
  case Nil
  then show ?case by simp
next
  case (Cons x xs)
  obtain k' w where x: "x = (k', w)" by (cases x)
  show ?case
  proof (cases "k' = k")
    case True
    then have "w = v" using Cons.prems(2) [of w] by (simp add: x)
    with True show ?thesis by (simp add: x)
  next
    case False
    then have "(k, v) \<in> set xs" using Cons.prems(1) by (simp add: x)
    moreover have "\<And>v'. (k, v') \<in> set xs \<Longrightarrow> v' = v" using Cons.prems(2) by simp
    ultimately have "map_of xs k = Some v" by (rule Cons.IH)
    with False show ?thesis by (simp add: x)
  qed
qed

lemma rename_stable_key:
  assumes dist: "distinct (map fst es)" and st: "stable_key f es k"
  shows "map_of (rev (rename f es)) k = map_of es k"
proof (cases "k \<in> fst ` set es")
  case True
  then obtain v where v: "(k, v) \<in> set es" by auto
  then have m: "map_of es k = Some v" using dist by simp
  have fk: "f k = k" using st True by (simp add: stable_key_def)
  have only: "k' = k" if "k' \<in> fst ` set es" "f k' = k" for k'
    using st that by (auto simp: stable_key_def list_all_iff)
  have "(k, v) \<in> set (rev (rename f es))"
    using v fk by (force simp: rename_set)
  moreover have "v' = v" if "(k, v') \<in> set (rev (rename f es))" for v'
  proof -
    from that obtain k' where k': "(k', v') \<in> set es" "f k' = k"
      by (auto simp: rename_set)
    then have "k' = k" using only [of k'] by force
    with k' have "(k, v') \<in> set es" by simp
    then have "map_of es k = Some v'" using dist by simp
    with m show ?thesis by simp
  qed
  ultimately have "map_of (rev (rename f es)) k = Some v" by (rule map_of_unique)
  with m show ?thesis by simp
next
  case False
  have "k \<notin> fst ` set (rev (rename f es))"
  proof
    assume "k \<in> fst ` set (rev (rename f es))"
    then obtain k' where k': "k' \<in> fst ` set es" "f k' = k"
      using rename_keys [of f es] by auto
    then have "k' = k" using st by (auto simp: stable_key_def list_all_iff)
    with k' False show False by simp
  qed
  then have "map_of (rev (rename f es)) k = None" by (simp add: map_of_eq_None_iff)
  moreover have "map_of es k = None" using False by (simp add: map_of_eq_None_iff)
  ultimately show ?thesis by simp
qed

lemma drop_one_tag_shaped:
  assumes "escaped_shaped opts k"
  shows "tag_shaped opts (drop 1 k)"
proof -
  define n where "n = length k - length (key opts)"
  from assms have n: "0 < n" "length (key opts) < length k" and d: "drop n k = key opts"
    and a: "list_all (\<lambda>c. [c] = escapeCharacter opts) (take n k)"
    by (simp_all add: escaped_shaped_def Let_def n_def nat_diff_distrib')
  have l: "length (drop 1 k) - length (key opts) = n - 1" using n by (simp add: n_def)
  have "drop (n - 1) (drop 1 k) = key opts" using d n by simp
  moreover have "set (take (n - 1) (drop 1 k)) \<subseteq> set (take n k)"
  proof -
    have "take (n - 1) (drop 1 k) = drop 1 (take n k)"
      using n by (simp add: drop_take)
    then show ?thesis by (simp add: set_drop_subset)
  qed
  then have "list_all (\<lambda>c. [c] = escapeCharacter opts) (take (n - 1) (drop 1 k))"
    using a by (auto simp: list_all_iff)
  moreover have "nat (int (length (drop 1 k)) - int (length (key opts))) = n - 1"
    using l n by (simp add: n_def)
  moreover have "int (length (key opts)) \<le> int (length (drop 1 k))" using n by simp
  ultimately show ?thesis by (simp add: tag_shaped_def Let_def)
qed

lemma stable_remove:
  assumes "\<not> tag_shaped opts k"
  shows "stable_key (removePrependedEscapeChar opts) es k"
proof -
  have "k' = k" if "removePrependedEscapeChar opts k' = k" for k'
  proof (rule ccontr)
    assume ne: "k' \<noteq> k"
    then have c: "getEscapeCharCount opts k' > 0" and k: "k = slice k' 1"
      using that by (auto simp: removePrependedEscapeChar_def split: if_splits)
    from c have "escaped_shaped opts k'" by (rule count_positive_escaped)
    then have "tag_shaped opts (drop 1 k')" by (rule drop_one_tag_shaped)
    with k assms show False by (simp add: slice_one)
  qed
  moreover have "removePrependedEscapeChar opts k = k" using assms by (rule remove_unchanged)
  ultimately show ?thesis by (auto simp: stable_key_def list_all_iff)
qed

lemma stable_prepend:
  assumes "\<not> tag_shaped opts k" and "length (escapeCharacter opts) = 1"
  shows "stable_key (prependEscapeChar opts) es k"
proof -
  from assms(2) obtain c where c: "escapeCharacter opts = [c]"
    by (cases "escapeCharacter opts") auto
  have "k' = k" if "prependEscapeChar opts k' = k" for k'
  proof (rule ccontr)
    assume ne: "k' \<noteq> k"
    then have t: "getEscapeCharCount opts k' \<noteq> - 1" and k: "k = c # k'"
      using that by (auto simp: prependEscapeChar_def c split: if_splits)
    from t have "tag_shaped opts k'" by (rule getEscapeCharCount_tag_shaped)
    then have "tag_shaped opts (c # k')" using c tag_shaped_Cons by blast
    with k assms(1) show False by simp
  qed
  moreover have "prependEscapeChar opts k = k" using assms(1) by (rule prepend_unchanged)
  ultimately show ?thesis by (auto simp: stable_key_def list_all_iff)
qed

lemma replaceObjectKey_stable:
  assumes a: "a < length h"
    and dist: "distinct (map fst (Object_entries (lookup h a)))"
    and ord: "ordinary_writes f (lookup h a)"
  obtains b h' where "replaceObjectKey rt (Ref a) f h = (Inr (Ref b), h')"
    and "b < length h'" and "prefix h h'"
    and "b = (if list_ex (\<lambda>k. f k \<noteq> k) (top_level_keys h (Ref a)) then length h else a)"
    and "is_array (lookup h' b) = is_array (lookup h a)"
    and "distinct (map fst (Object_entries (lookup h' b)))"
    and "\<And>k. stable_key f (Object_entries (lookup h a)) k \<Longrightarrow>
           map_of (Object_entries (lookup h' b)) k = map_of (Object_entries (lookup h a)) k"
proof -
  let ?E = "Object_entries (lookup h a)"
  let ?C = "stores (empty_object (is_array (lookup h a))) (rename f ?E)"
  have oc: "Object_entries ?C = entries (spread (empty_object (is_array (lookup h a))) (rename f ?E))"
    using ord by (rule Object_entries_clone)
  have l: "list_ex (\<lambda>k. f k \<noteq> k) (top_level_keys h (Ref a)) = (\<exists>k\<in>fst ` set ?E. f k \<noteq> k)"
    by (auto simp: top_level_keys_def list_ex_iff)
  show ?thesis
  proof (cases "\<exists>k\<in>fst ` set ?E. f k \<noteq> k")
    case False
    then have r: "replaceObjectKey rt (Ref a) f h = (Inr (Ref a), h @ [?C])"
      using replaceObjectKey_ordinary [OF ord, of rt] by simp
    show ?thesis
      by (rule that [of a "h @ [?C]"]) (use a dist False in \<open>simp_all add: r l\<close>)
  next
    case True
    then have r: "replaceObjectKey rt (Ref a) f h = (Inr (Ref (length h)), h @ [?C])"
      using replaceObjectKey_ordinary [OF ord, of rt] by simp
    show ?thesis
    proof (rule that [of "length h" "h @ [?C]"])
      show "map_of (Object_entries (lookup (h @ [?C]) (length h))) k = map_of ?E k"
        if "stable_key f ?E k" for k
      proof -
        have "map_of (entries (spread (empty_object (is_array (lookup h a))) (rename f ?E))) =
                map_of (rev (rename f ?E))"
          by (simp add: map_of_spread empty_object_def)
        then have "map_of (Object_entries ?C) k = map_of (rev (rename f ?E)) k"
          unfolding oc by simp
        also have "\<dots> = map_of ?E k" using dist that by (rule rename_stable_key)
        finally show ?thesis by simp
      qed
    qed (use True in \<open>simp_all add: r l oc distinct_spread_empty\<close>)
  qed
qed

lemma array_rename_only:
  assumes a: "a < length h" and dist: "distinct (map fst (Object_entries (lookup h a)))"
    and ord: "ordinary_writes f (lookup h a)"
    and st: "\<And>k. \<not> tag_shaped opts k \<Longrightarrow> stable_key f (Object_entries (lookup h a)) k"
  shows "\<exists>b h'. replaceObjectKey rt (Ref a) f h = (Inr (Ref b), h') \<and>
             b = (if list_ex (\<lambda>k. f k \<noteq> k) (top_level_keys h (Ref a)) then length h else a) \<and>
             is_array (lookup h' b) = is_array (lookup h a) \<and>
             (\<forall>k. \<not> tag_shaped opts k \<longrightarrow>
                map_of (Object_entries (lookup h' b)) k = map_of (Object_entries (lookup h a)) k)"
proof (rule replaceObjectKey_stable [OF a dist ord, of rt])
  fix b h'
  assume "replaceObjectKey rt (Ref a) f h = (Inr (Ref b), h')"
    and "b = (if list_ex (\<lambda>k. f k \<noteq> k) (top_level_keys h (Ref a)) then length h else a)"
    and "is_array (lookup h' b) = is_array (lookup h a)"
    and "\<And>k. stable_key f (Object_entries (lookup h a)) k \<Longrightarrow>
           map_of (Object_entries (lookup h' b)) k = map_of (Object_entries (lookup h a)) k"
  then show ?thesis using st by blast
qed

lemma ordinary_writes_stripped:
  assumes "ordinary_writes f ob"
  shows "ordinary_writes f
           (delete_property (spread (empty_object False) (Object_entries ob)) k)"
proof -
  let ?S = "delete_property (spread (empty_object False) (Object_entries ob)) k"
  have "fst ` set (entries ?S) \<subseteq> fst ` set (Object_entries ob)"
    using spread_keys [of "empty_object False" "Object_entries ob"]
    by (auto simp: delete_property_def empty_object_def)
  moreover have "f k' \<noteq> ''__proto__''" if "k' \<in> fst ` set (Object_entries ob)" for k'
    using assms that by (auto simp: ordinary_writes_def list_all_iff ordinary_key_def)
  ultimately have "f k' \<noteq> ''__proto__''" if "k' \<in> fst ` set (entries ?S)" for k'
    using that by blast
  then show ?thesis
    by (simp add: ordinary_writes_def list_all_iff ordinary_key_def)
qed

lemma tagged_decode_plain:
  assumes a: "a < length h" and dist: "distinct (map fst (Object_entries (lookup h a)))"
    and tagged: "is_tagged opts h (Ref a)"
    and ord: "ordinary_writes (removePrependedEscapeChar opts) (lookup h a)"
  shows "\<exists>r h3. decode rt opts (Ref a) h = returned (fromPlainObject opts (Ref r) h3) \<and>
                 r < length h3 \<and> length h \<le> r \<and> \<not> is_array (lookup h3 r) \<and>
                 (\<forall>k. \<not> tag_shaped opts k \<longrightarrow>
                    map_of (entries (lookup h3 r)) k = map_of (Object_entries (lookup h a)) k)"
proof -
  let ?g = "removePrependedEscapeChar opts"
  let ?E = "Object_entries (lookup h a)"
  let ?S = "delete_property (spread (empty_object False) ?E) (key opts)"
  let ?h = "h @ [?S]"
  have l: "length h < length ?h" by simp
  have lk: "lookup ?h (length h) = ?S" by simp
  have pl: "\<not> is_array ?S" by simp
  have oe: "Object_entries ?S = entries ?S" using pl by (rule Object_entries_plain)
  have ds: "distinct (map fst (Object_entries (lookup ?h (length h))))"
    unfolding lk oe using distinct_spread_empty [of False ?E]
    by (simp add: distinct_filter_keys delete_property_def)
  have os: "ordinary_writes ?g (lookup ?h (length h))"
    unfolding lk using ord by (rule ordinary_writes_stripped)
  have ms: "map_of (entries ?S) k = map_of ?E k" if "\<not> tag_shaped opts k" for k
  proof -
    have "k \<noteq> key opts" using that tag_shaped_key by blast
    then show ?thesis
      using dist
      by (simp add: map_of_filter_key map_of_spread map_of_rev_distinct delete_property_def
          empty_object_def)
  qed
  show ?thesis
  proof (rule replaceObjectKey_stable [OF l ds os, of rt])
    fix b h'
    assume r: "replaceObjectKey rt (Ref (length h)) ?g ?h = (Inr (Ref b), h')"
      and b: "b < length h'"
        "b = (if list_ex (\<lambda>k. ?g k \<noteq> k) (top_level_keys ?h (Ref (length h)))
              then length ?h else length h)"
      and ba: "is_array (lookup h' b) = is_array (lookup ?h (length h))"
      and bm: "\<And>k. stable_key ?g (Object_entries (lookup ?h (length h))) k \<Longrightarrow>
                 map_of (Object_entries (lookup h' b)) k =
                 map_of (Object_entries (lookup ?h (length h))) k"
    have dec: "decode rt opts (Ref a) h = returned (fromPlainObject opts (Ref b) h')"
      unfolding decode_tagged [OF tagged] Let_def r by simp
    have bp: "\<not> is_array (lookup h' b)" using ba unfolding lk by simp
    have boe: "Object_entries (lookup h' b) = entries (lookup h' b)"
      using bp by (rule Object_entries_plain)
    have "map_of (entries (lookup h' b)) k = map_of ?E k" if "\<not> tag_shaped opts k" for k
      using bm [OF stable_remove [OF that]] ms [OF that] unfolding lk oe boe by simp
    moreover have "length h \<le> b" using b(2) by (simp split: if_splits)
    ultimately show ?thesis using dec b(1) bp by blast
  qed
qed

lemma source_encode_plain:
  assumes src: "isSource opts h0 s" and conv: "toPlainObject opts s h0 = (Ref a, h)"
    and a: "a < length h" and dist: "distinct (map fst (Object_entries (lookup h a)))"
    and esc: "length (escapeCharacter opts) = 1"
    and ord: "ordinary_writes (prependEscapeChar opts) (lookup h a)"
  shows "\<exists>t h2. encode rt opts s h0 = (Inr (Ref t), h2) \<and> t < length h2 \<and>
                 \<not> is_array (lookup h2 t) \<and>
                 map_of (entries (lookup h2 t)) (key opts) = Some (val_of_tag (value opts)) \<and>
                 (\<forall>k. \<not> tag_shaped opts k \<longrightarrow>
                    map_of (entries (lookup h2 t)) k = map_of (Object_entries (lookup h a)) k)"
proof -
  let ?f = "prependEscapeChar opts"
  let ?E = "Object_entries (lookup h a)"
  from esc obtain c where c: "escapeCharacter opts = [c]"
    by (cases "escapeCharacter opts") auto
  show ?thesis
  proof (rule replaceObjectKey_stable [OF a dist ord, of rt])
    fix b h'
    assume r: "replaceObjectKey rt (Ref a) ?f h = (Inr (Ref b), h')"
      and b: "b < length h'"
        "b = (if list_ex (\<lambda>k. ?f k \<noteq> k) (top_level_keys h (Ref a)) then length h else a)"
      and pre: "prefix h h'"
      and bd: "distinct (map fst (Object_entries (lookup h' b)))"
      and bm: "\<And>k. stable_key ?f ?E k \<Longrightarrow>
                 map_of (Object_entries (lookup h' b)) k = map_of ?E k"
    let ?E1 = "Object_entries (lookup h' b)"
    let ?T = "spread (set_property (empty_object False) (key opts) (val_of_tag (value opts))) ?E1"
    have enc: "encode rt opts s h0 = (Inr (Ref (length h')), h' @ [?T])"
      unfolding encode_source [OF src] conv Let_def fst_conv snd_conv r by simp
    have m: "map_of (entries ?T) k =
               (case map_of ?E1 k of
                  None \<Rightarrow> (if k = key opts then Some (val_of_tag (value opts)) else None)
                | Some v \<Rightarrow> Some v)" for k
      using bd
      by (simp add: map_of_spread map_of_rev_distinct map_add_def set_property_def
          empty_object_def split: option.splits)
    have keys: "fst ` set ?E1 \<subseteq> ?f ` fst ` set ?E"
    proof (cases "list_ex (\<lambda>k. ?f k \<noteq> k) (top_level_keys h (Ref a))")
      case False
      then have ba: "b = a" using b(2) by simp
      have "lookup h' a = lookup h a" using pre a by (rule lookup_prefix)
      moreover have "?f k = k" if "k \<in> fst ` set ?E" for k
        using False that by (auto simp: list_ex_iff top_level_keys_def)
      ultimately show ?thesis unfolding ba by force
    next
      case True
      then have bl: "b = length h" using b(2) by simp
      have "h' = h @ [stores (empty_object (is_array (lookup h a))) (rename ?f ?E)]"
        using r unfolding replaceObjectKey_ordinary [OF ord] by simp
      then have "?E1 = entries (spread (empty_object (is_array (lookup h a))) (rename ?f ?E))"
        unfolding bl using Object_entries_clone [OF ord] by simp
      then show ?thesis by (simp add: spread_keys rename_keys empty_object_def)
    qed
    have "key opts \<notin> fst ` set ?E1"
    proof
      assume "key opts \<in> fst ` set ?E1"
      with keys obtain k where "key opts = ?f k" by auto
      then show False using prepend_neq_key_any [OF c, of k] by simp
    qed
    then have "map_of ?E1 (key opts) = None" by (simp add: map_of_eq_None_iff)
    then have tag: "map_of (entries ?T) (key opts) = Some (val_of_tag (value opts))"
      by (simp add: m)
    have "map_of (entries ?T) k = map_of ?E k" if "\<not> tag_shaped opts k" for k
    proof -
      have ne: "k \<noteq> key opts" using that tag_shaped_key by blast
      have "map_of (entries ?T) k = map_of ?E1 k"
        using ne by (simp add: m split: option.splits)
      also have "\<dots> = map_of ?E k" using bm [OF stable_prepend [OF that esc]] .
      finally show ?thesis .
    qed
    with enc tag show ?thesis by simp
  qed
qed


text \<open>
  C7 as stated: a sequence stays a sequence also when it is the plain representation of a
  source value and when a tagged sequence is decoded. The encoder whose plain
  representation is the array \<^verbatim>\<open>[err.name, err.message]\<close> encodes an error to an object
  that is not an array.
\<close>

theorem C7_counterexample:
  "isSource pairEncoder error_heap (Ref 0) \<and>
   toPlainObject pairEncoder (Ref 0) error_heap = (Ref 1, error_heap @ [pair_payload]) \<and>
   is_array pair_payload \<and>
   fst (encode sample_runtime pairEncoder (Ref 0) error_heap) = Inr (Ref 3) \<and>
   lookup (snd (encode sample_runtime pairEncoder (Ref 0) error_heap)) 3 =
     \<lparr>is_array = False, len = 0,
      entries = [(''0'', Str ''Error''), (''1'', Str ''msg''), (''$type'', Str ''Error'')],
      inherited = [], proto_setter = True\<rparr> \<and>
   \<not> is_array (lookup (snd (encode sample_runtime pairEncoder (Ref 0) error_heap)) 3)"
  by code_simp

text \<open>
  C7, amended. Take an escape character of one code unit and an array with distinct keys
  of which the renaming at hand turns none into \<^verbatim>\<open>__proto__\<close> or \<^verbatim>\<open>length\<close>. Where only
  keys are renamed, when \<^verbatim>\<open>encode\<close> is given the array and it is not a source value and
  when \<^verbatim>\<open>decode\<close> is given the array and it is not tagged, the result is an array: the
  same one when no key changes, a new one otherwise, in which every key that is not
  tag-shaped (every index, when no index is tag-shaped) has the value it had. Where a tag
  is inserted or removed the result is a plain object, not an array, which keeps those
  values: the object \<^verbatim>\<open>decode\<close> hands to \<^verbatim>\<open>fromPlainObject\<close> for a tagged array, and
  \<^verbatim>\<open>encode\<close> of a source value whose plain representation is the array, which holds the
  tag pair as well.
\<close>

theorem C7_arrays:
  assumes a: "a < length h" and arr: "is_array (lookup h a)"
    and dist: "distinct (map fst (Object_entries (lookup h a)))"
    and esc: "length (escapeCharacter opts) = 1"
  shows "(\<not> isSource opts h (Ref a) \<and>
          ordinary_writes (prependEscapeChar opts) (lookup h a) \<longrightarrow>
            (\<exists>b h'. encode rt opts (Ref a) h = (Inr (Ref b), h') \<and>
                 b = (if list_ex (\<lambda>k. prependEscapeChar opts k \<noteq> k) (top_level_keys h (Ref a))
                      then length h else a) \<and>
                 is_array (lookup h' b) \<and>
                 (\<forall>k. \<not> tag_shaped opts k \<longrightarrow>
                    map_of (Object_entries (lookup h' b)) k =
                    map_of (Object_entries (lookup h a)) k))) \<and>
         (\<not> is_tagged opts h (Ref a) \<and>
          ordinary_writes (removePrependedEscapeChar opts) (lookup h a) \<longrightarrow>
            (\<exists>b h'. decode rt opts (Ref a) h = (Inr (Ref b), h') \<and>
                 b = (if list_ex (\<lambda>k. removePrependedEscapeChar opts k \<noteq> k)
                           (top_level_keys h (Ref a))
                      then length h else a) \<and>
                 is_array (lookup h' b) \<and>
                 (\<forall>k. \<not> tag_shaped opts k \<longrightarrow>
                    map_of (Object_entries (lookup h' b)) k =
                    map_of (Object_entries (lookup h a)) k))) \<and>
         (is_tagged opts h (Ref a) \<and>
          ordinary_writes (removePrependedEscapeChar opts) (lookup h a) \<longrightarrow>
            (\<exists>r h3. decode rt opts (Ref a) h = returned (fromPlainObject opts (Ref r) h3) \<and>
                    r < length h3 \<and> length h \<le> r \<and> \<not> is_array (lookup h3 r) \<and>
                    (\<forall>k. \<not> tag_shaped opts k \<longrightarrow>
                       map_of (entries (lookup h3 r)) k =
                       map_of (Object_entries (lookup h a)) k))) \<and>
         (\<forall>s h0. isSource opts h0 s \<and> toPlainObject opts s h0 = (Ref a, h) \<and>
                 ordinary_writes (prependEscapeChar opts) (lookup h a) \<longrightarrow>
            (\<exists>t h2. encode rt opts s h0 = (Inr (Ref t), h2) \<and> t < length h2 \<and>
                    \<not> is_array (lookup h2 t) \<and>
                    map_of (entries (lookup h2 t)) (key opts) = Some (val_of_tag (value opts)) \<and>
                    (\<forall>k. \<not> tag_shaped opts k \<longrightarrow>
                       map_of (entries (lookup h2 t)) k =
                       map_of (Object_entries (lookup h a)) k)))"
proof (intro conjI impI allI)
  assume h: "\<not> isSource opts h (Ref a) \<and>
             ordinary_writes (prependEscapeChar opts) (lookup h a)"
  then have e: "encode rt opts (Ref a) h =
                  replaceObjectKey rt (Ref a) (prependEscapeChar opts) h"
    by (simp add: encode_not_source)
  have o: "ordinary_writes (prependEscapeChar opts) (lookup h a)" using h by simp
  have "\<And>k. \<not> tag_shaped opts k \<Longrightarrow>
          stable_key (prependEscapeChar opts) (Object_entries (lookup h a)) k"
    using esc by (simp add: stable_prepend)
  from array_rename_only [OF a dist o this, where rt = rt] arr
  show "\<exists>b h'. encode rt opts (Ref a) h = (Inr (Ref b), h') \<and>
             b = (if list_ex (\<lambda>k. prependEscapeChar opts k \<noteq> k) (top_level_keys h (Ref a))
                  then length h else a) \<and>
             is_array (lookup h' b) \<and>
             (\<forall>k. \<not> tag_shaped opts k \<longrightarrow>
                map_of (Object_entries (lookup h' b)) k =
                map_of (Object_entries (lookup h a)) k)"
    unfolding e by simp
next
  assume h: "\<not> is_tagged opts h (Ref a) \<and>
             ordinary_writes (removePrependedEscapeChar opts) (lookup h a)"
  then have d: "decode rt opts (Ref a) h =
                  replaceObjectKey rt (Ref a) (removePrependedEscapeChar opts) h"
    by (simp add: decode_untagged)
  have o: "ordinary_writes (removePrependedEscapeChar opts) (lookup h a)" using h by simp
  have "\<And>k. \<not> tag_shaped opts k \<Longrightarrow>
          stable_key (removePrependedEscapeChar opts) (Object_entries (lookup h a)) k"
    by (simp add: stable_remove)
  from array_rename_only [OF a dist o this, where rt = rt] arr
  show "\<exists>b h'. decode rt opts (Ref a) h = (Inr (Ref b), h') \<and>
             b = (if list_ex (\<lambda>k. removePrependedEscapeChar opts k \<noteq> k)
                       (top_level_keys h (Ref a))
                  then length h else a) \<and>
             is_array (lookup h' b) \<and>
             (\<forall>k. \<not> tag_shaped opts k \<longrightarrow>
                map_of (Object_entries (lookup h' b)) k =
                map_of (Object_entries (lookup h a)) k)"
    unfolding d by simp
next
  assume "is_tagged opts h (Ref a) \<and>
          ordinary_writes (removePrependedEscapeChar opts) (lookup h a)"
  then have "is_tagged opts h (Ref a)"
    and "ordinary_writes (removePrependedEscapeChar opts) (lookup h a)"
    by simp_all
  with a dist
  show "\<exists>r h3. decode rt opts (Ref a) h = returned (fromPlainObject opts (Ref r) h3) \<and>
                r < length h3 \<and> length h \<le> r \<and> \<not> is_array (lookup h3 r) \<and>
                (\<forall>k. \<not> tag_shaped opts k \<longrightarrow>
                   map_of (entries (lookup h3 r)) k = map_of (Object_entries (lookup h a)) k)"
    by (rule tagged_decode_plain)
next
  fix s h0
  assume "isSource opts h0 s \<and> toPlainObject opts s h0 = (Ref a, h) \<and>
          ordinary_writes (prependEscapeChar opts) (lookup h a)"
  then have "isSource opts h0 s" and "toPlainObject opts s h0 = (Ref a, h)"
    and "ordinary_writes (prependEscapeChar opts) (lookup h a)"
    by simp_all
  from source_encode_plain [OF this(1,2) a dist esc this(3), where rt = rt]
  show "\<exists>t h2. encode rt opts s h0 = (Inr (Ref t), h2) \<and> t < length h2 \<and>
                \<not> is_array (lookup h2 t) \<and>
                map_of (entries (lookup h2 t)) (key opts) = Some (val_of_tag (value opts)) \<and>
                (\<forall>k. \<not> tag_shaped opts k \<longrightarrow>
                   map_of (entries (lookup h2 t)) k = map_of (Object_entries (lookup h a)) k)" .
qed

theorem C7_arrays_witness:
  "(0 :: nat) < length array_heap \<and> is_array (lookup array_heap 0) \<and>
   distinct (map fst (Object_entries (lookup array_heap 0))) \<and>
   length (escapeCharacter errorEncoder) = 1 \<and>
   \<not> tag_shaped errorEncoder ''1'' \<and>
   \<not> isSource errorEncoder array_heap (Ref 0) \<and>
   \<not> is_tagged errorEncoder array_heap (Ref 0) \<and>
   ordinary_writes (prependEscapeChar errorEncoder) (lookup array_heap 0) \<and>
   ordinary_writes (removePrependedEscapeChar errorEncoder) (lookup array_heap 0) \<and>
   list_ex (\<lambda>k. prependEscapeChar errorEncoder k \<noteq> k) (top_level_keys array_heap (Ref 0)) \<and>
   \<not> list_ex (\<lambda>k. removePrependedEscapeChar errorEncoder k \<noteq> k)
       (top_level_keys array_heap (Ref 0)) \<and>
   (\<exists>h'. encode sample_runtime errorEncoder (Ref 0) array_heap =
            (Inr (Ref (length array_heap)), h') \<and>
        is_array (lookup h' (length array_heap)) \<and>
        map_of (Object_entries (lookup h' (length array_heap))) ''1'' =
        map_of (Object_entries (lookup array_heap 0)) ''1'') \<and>
   (\<exists>h'. decode sample_runtime errorEncoder (Ref 0) array_heap = (Inr (Ref 0), h') \<and>
        is_array (lookup h' 0) \<and>
        map_of (Object_entries (lookup h' 0)) ''1'' =
        map_of (Object_entries (lookup array_heap 0)) ''1'') \<and>
   (0 :: nat) < length tagged_array_heap \<and> is_array (lookup tagged_array_heap 0) \<and>
   distinct (map fst (Object_entries (lookup tagged_array_heap 0))) \<and>
   is_tagged errorEncoder tagged_array_heap (Ref 0) \<and>
   ordinary_writes (removePrependedEscapeChar errorEncoder) (lookup tagged_array_heap 0) \<and>
   (\<exists>r h3. decode sample_runtime errorEncoder (Ref 0) tagged_array_heap =
             returned (fromPlainObject errorEncoder (Ref r) h3) \<and>
           r < length h3 \<and> length tagged_array_heap \<le> r \<and> \<not> is_array (lookup h3 r) \<and>
           map_of (entries (lookup h3 r)) ''1'' =
           map_of (Object_entries (lookup tagged_array_heap 0)) ''1'') \<and>
   (1 :: nat) < length (error_heap @ [pair_payload]) \<and>
   is_array (lookup (error_heap @ [pair_payload]) 1) \<and>
   distinct (map fst (Object_entries (lookup (error_heap @ [pair_payload]) 1))) \<and>
   length (escapeCharacter pairEncoder) = 1 \<and>
   \<not> tag_shaped pairEncoder ''1'' \<and>
   isSource pairEncoder error_heap (Ref 0) \<and>
   toPlainObject pairEncoder (Ref 0) error_heap = (Ref 1, error_heap @ [pair_payload]) \<and>
   ordinary_writes (prependEscapeChar pairEncoder) (lookup (error_heap @ [pair_payload]) 1) \<and>
   (\<exists>t h2. encode sample_runtime pairEncoder (Ref 0) error_heap = (Inr (Ref t), h2) \<and>
           t < length h2 \<and> \<not> is_array (lookup h2 t) \<and>
           map_of (entries (lookup h2 t)) (key pairEncoder) =
             Some (val_of_tag (value pairEncoder)) \<and>
           map_of (entries (lookup h2 t)) ''1'' =
           map_of (Object_entries (lookup (error_heap @ [pair_payload]) 1)) ''1'')"
proof -
  have a1: "(0 :: nat) < length array_heap" and a2: "is_array (lookup array_heap 0)"
    and a3: "distinct (map fst (Object_entries (lookup array_heap 0)))"
    by (simp_all add: array_heap_def lookup_def Object_entries_def)
  have e: "length (escapeCharacter errorEncoder) = 1" by (simp add: errorEncoder_def)
  have k: "\<not> tag_shaped errorEncoder ''1''"
    by (simp add: tag_shaped_def errorEncoder_def)
  have n1: "\<not> isSource errorEncoder array_heap (Ref 0)"
    by (simp add: errorEncoder_def is_error_def array_heap_def lookup_def)
  have n2: "\<not> is_tagged errorEncoder array_heap (Ref 0)" by code_simp
  have o1: "ordinary_writes (prependEscapeChar errorEncoder) (lookup array_heap 0)"
    by code_simp
  have o2: "ordinary_writes (removePrependedEscapeChar errorEncoder) (lookup array_heap 0)"
    by code_simp
  have x1: "list_ex (\<lambda>k. prependEscapeChar errorEncoder k \<noteq> k)
              (top_level_keys array_heap (Ref 0))"
    by code_simp
  have x2: "\<not> list_ex (\<lambda>k. removePrependedEscapeChar errorEncoder k \<noteq> k)
              (top_level_keys array_heap (Ref 0))"
    by code_simp
  note A = C7_arrays [OF a1 a2 a3 e, where rt = sample_runtime]
  from A [THEN conjunct1, rule_format, OF conjI [OF n1 o1]] k x1
  have r1: "\<exists>h'. encode sample_runtime errorEncoder (Ref 0) array_heap =
            (Inr (Ref (length array_heap)), h') \<and>
        is_array (lookup h' (length array_heap)) \<and>
        map_of (Object_entries (lookup h' (length array_heap))) ''1'' =
        map_of (Object_entries (lookup array_heap 0)) ''1''"
    by auto
  from A [THEN conjunct2, THEN conjunct1, rule_format, OF conjI [OF n2 o2]] k x2
  have r2: "\<exists>h'. decode sample_runtime errorEncoder (Ref 0) array_heap = (Inr (Ref 0), h') \<and>
        is_array (lookup h' 0) \<and>
        map_of (Object_entries (lookup h' 0)) ''1'' =
        map_of (Object_entries (lookup array_heap 0)) ''1''"
    by auto
  have b1: "(0 :: nat) < length tagged_array_heap" and b2: "is_array (lookup tagged_array_heap 0)"
    and b3: "distinct (map fst (Object_entries (lookup tagged_array_heap 0)))"
    by (simp_all add: tagged_array_heap_def lookup_def Object_entries_def)
  have t: "is_tagged errorEncoder tagged_array_heap (Ref 0)" by code_simp
  have o3: "ordinary_writes (removePrependedEscapeChar errorEncoder) (lookup tagged_array_heap 0)"
    by code_simp
  note B = C7_arrays [OF b1 b2 b3 e, where rt = sample_runtime]
  from B [THEN conjunct2, THEN conjunct2, THEN conjunct1, rule_format, OF conjI [OF t o3]] k
  have r3: "\<exists>r h3. decode sample_runtime errorEncoder (Ref 0) tagged_array_heap =
             returned (fromPlainObject errorEncoder (Ref r) h3) \<and>
           r < length h3 \<and> length tagged_array_heap \<le> r \<and> \<not> is_array (lookup h3 r) \<and>
           map_of (entries (lookup h3 r)) ''1'' =
           map_of (Object_entries (lookup tagged_array_heap 0)) ''1''"
    by blast
  have l: "lookup (error_heap @ [pair_payload]) 1 = pair_payload"
    by (simp add: lookup_def error_heap_def)
  have c1: "(1 :: nat) < length (error_heap @ [pair_payload])" by (simp add: error_heap_def)
  have c2: "is_array (lookup (error_heap @ [pair_payload]) 1)"
    unfolding l by (simp add: pair_payload_def)
  have c3: "distinct (map fst (Object_entries (lookup (error_heap @ [pair_payload]) 1)))"
    unfolding l by (simp add: pair_payload_def Object_entries_def)
  have e': "length (escapeCharacter pairEncoder) = 1" by (simp add: pairEncoder_def)
  have k': "\<not> tag_shaped pairEncoder ''1''"
    by (simp add: tag_shaped_def pairEncoder_def)
  have s: "isSource pairEncoder error_heap (Ref 0)"
    by (simp add: pairEncoder_def is_error_def error_heap_def lookup_def)
  have p: "toPlainObject pairEncoder (Ref 0) error_heap = (Ref 1, error_heap @ [pair_payload])"
    by code_simp
  have o4: "ordinary_writes (prependEscapeChar pairEncoder)
              (lookup (error_heap @ [pair_payload]) 1)"
    unfolding l by code_simp
  note C = C7_arrays [OF c1 c2 c3 e', where rt = sample_runtime]
  from C [THEN conjunct2, THEN conjunct2, THEN conjunct2, rule_format,
      OF conjI [OF s conjI [OF p o4]]] k'
  have r4: "\<exists>t h2. encode sample_runtime pairEncoder (Ref 0) error_heap = (Inr (Ref t), h2) \<and>
           t < length h2 \<and> \<not> is_array (lookup h2 t) \<and>
           map_of (entries (lookup h2 t)) (key pairEncoder) =
             Some (val_of_tag (value pairEncoder)) \<and>
           map_of (entries (lookup h2 t)) ''1'' =
           map_of (Object_entries (lookup (error_heap @ [pair_payload]) 1)) ''1''"
    by blast
  show ?thesis
    using a1 a2 a3 e k n1 n2 o1 o2 x1 x2 r1 r2 b1 b2 b3 t o3 r3 c1 c2 c3 e' k' s p o4 r4
    by (intro conjI)
qed
section \<open>Primitive plain representations\<close>

lemma digits_value_append:
  "digits_value (xs @ ys) acc =
     (case digits_value xs acc of None \<Rightarrow> None | Some a \<Rightarrow> digits_value ys a)"
  by (induction xs arbitrary: acc) auto

lemma digit_char:
  assumes "d < 10"
  shows "is_digit (char_of (48 + d))" and "(of_char (char_of (48 + d)) :: int) = 48 + int d"
proof -
  have "(of_char (char_of (48 + d)) :: nat) = (48 + d) mod 256" by (rule of_char_of)
  also have "\<dots> = 48 + d" using assms by simp
  finally have n: "(of_char (char_of (48 + d)) :: nat) = 48 + d" .
  have "(of_char (char_of (48 + d)) :: int) = int (of_char (char_of (48 + d)))"
    by (simp only: of_nat_of_char)
  then show i: "(of_char (char_of (48 + d)) :: int) = 48 + int d" using n by simp
  show "is_digit (char_of (48 + d))" using assms by (simp add: is_digit_def i)
qed

lemma digits_value_decimal:
  "digits_value (decimal n) acc = Some (acc * 10 ^ length (decimal n) + int n)"
proof (induction n arbitrary: acc rule: decimal.induct)
  case (1 n)
  show ?case
  proof (cases "n < 10")
    case True
    then show ?thesis by (subst (1 2) decimal.simps) (simp add: digit_char)
  next
    case False
    have m: "n mod 10 < 10" by simp
    have d: "decimal n = decimal (n div 10) @ [char_of (48 + n mod 10)]"
      using False by (subst decimal.simps) simp
    have "int n = 10 * int (n div 10) + int (n mod 10)"
      by (metis mult_div_mod_eq of_nat_add of_nat_mult of_nat_numeral)
    then show ?thesis
      using "1.IH" [OF False] False
      by (simp add: d digits_value_append digit_char [OF m] algebra_simps)
  qed
qed

lemma decimal_inj: "inj decimal"
proof (rule injI)
  fix a b
  assume "decimal a = decimal b"
  then have "digits_value (decimal a) 0 = digits_value (decimal b) 0" by simp
  then show "a = b" by (simp add: digits_value_decimal)
qed

lemma string_entries_keys: "fst ` set (string_entries str) = decimal ` {..<length str}"
  by (force simp: string_entries_def image_iff)

lemma distinct_string_entries: "distinct (map fst (string_entries str))"
proof -
  have "map fst (string_entries str) = map decimal [0..<length str]"
    by (simp add: string_entries_def comp_def)
  moreover have "distinct (map decimal [0..<length str])"
    using decimal_inj by (simp add: distinct_map inj_on_def inj_def)
  ultimately show ?thesis by simp
qed

lemma map_of_string_entries:
  "i < length str \<Longrightarrow> map_of (string_entries str) (decimal i) = Some (Str [str ! i])"
proof -
  assume "i < length str"
  then have "(decimal i, Str [str ! i]) \<in> set (string_entries str)"
    by (force simp: string_entries_def)
  then show ?thesis using distinct_string_entries by simp
qed

lemma own_enumerable_primitive:
  "\<not> is_object p \<Longrightarrow> \<forall>str. p \<noteq> Str str \<Longrightarrow> own_enumerable h p = []"
  by (cases p) auto

lemma decode_tag_only:
  assumes "is_tagged opts h2 (Ref t)"
    and "delete_property (spread (empty_object False) (Object_entries (lookup h2 t)))
           (key opts) = empty_object False"
  shows "decode rt opts (Ref t) h2 =
           returned (fromPlainObject opts (Ref (length h2))
             (h2 @ [empty_object False, empty_object False]))"
proof -
  have o: "ordinary_writes (removePrependedEscapeChar opts)
             (lookup (h2 @ [empty_object False]) (length h2))"
    by (simp add: ordinary_writes_def empty_object_def)
  have "replaceObjectKey rt (Ref (length h2)) (removePrependedEscapeChar opts)
          (h2 @ [empty_object False]) =
        (Inr (Ref (length h2)), (h2 @ [empty_object False]) @ [empty_object False])"
    unfolding replaceObjectKey_ordinary [OF o] lookup_append_new
    by (simp add: rename_def empty_object_def)
  then show ?thesis
    unfolding decode_tagged [OF assms(1)] Let_def assms(2) by simp
qed

text \<open>
  C10 as stated: for a primitive plain representation the container returned by
  \<^verbatim>\<open>encode\<close> holds the tag pair. With the tag key \<^verbatim>\<open>0\<close> and the plain representation
  \<^verbatim>\<open>"msg"\<close> the character at index \<open>0\<close> takes the place of the tag value, and the
  container holds no tag pair.
\<close>

theorem C10_counterexample:
  "isSource zeroKeyEncoder error_heap (Ref 0) \<and>
   toPlainObject zeroKeyEncoder (Ref 0) error_heap = (Str ''msg'', error_heap) \<and>
   encode sample_runtime zeroKeyEncoder (Ref 0) error_heap =
     (Inr (Ref 1),
      error_heap @
      [\<lparr>is_array = False, len = 0,
        entries = [(''0'', Str ''m''), (''1'', Str ''s''), (''2'', Str ''g'')],
        inherited = [], proto_setter = True\<rparr>]) \<and>
   \<not> has_tag_entry zeroKeyEncoder
        (snd (encode sample_runtime zeroKeyEncoder (Ref 0) error_heap)) (Ref 1)"
  by code_simp

text \<open>
  C10, amended. For a source value whose plain representation is a primitive \<open>p\<close>,
  \<^verbatim>\<open>encode\<close> does not return \<open>p\<close>: it returns a new plain object, made by defining the tag
  pair and then the enumerable index entries of \<open>p\<close>. For a \<open>p\<close> that is not a string the
  object holds the tag pair and nothing else, and, the tag value not being \<open>NaN\<close>,
  \<^verbatim>\<open>decode\<close> hands \<^verbatim>\<open>fromPlainObject\<close> an empty object whatever \<open>p\<close> was. For a string the
  keys of the object are the tag key and the indices of the string, each index holds its
  character, and the tag key holds the tag value unless it is one of the indices.
\<close>

theorem C10_primitive_payload:
  assumes src: "isSource opts h s"
    and conv: "toPlainObject opts s h = (p, h1)"
    and prim: "\<not> is_object p"
  shows "encode rt opts s h =
           (Inr (Ref (length h1)),
            h1 @ [spread (set_property (empty_object False) (key opts) (val_of_tag (value opts)))
                    (own_enumerable h1 p)]) \<and>
         fst (encode rt opts s h) \<noteq> Inr p \<and>
         \<not> is_array (lookup (snd (encode rt opts s h)) (length h1)) \<and>
         ((\<forall>str. p \<noteq> Str str) \<longrightarrow>
            entries (lookup (snd (encode rt opts s h)) (length h1)) =
              [(key opts, val_of_tag (value opts))]) \<and>
         (\<forall>str. p = Str str \<longrightarrow>
            fst ` set (entries (lookup (snd (encode rt opts s h)) (length h1))) =
              insert (key opts) (decimal ` {..<length str}) \<and>
            (\<forall>i<length str.
               map_of (entries (lookup (snd (encode rt opts s h)) (length h1))) (decimal i) =
                 Some (Str [str ! i])) \<and>
            (key opts \<notin> decimal ` {..<length str} \<longrightarrow>
               map_of (entries (lookup (snd (encode rt opts s h)) (length h1))) (key opts) =
                 Some (val_of_tag (value opts)))) \<and>
         ((\<forall>str. p \<noteq> Str str) \<and> value opts \<noteq> TagNumber NaN \<longrightarrow>
            decode rt opts (Ref (length h1)) (snd (encode rt opts s h)) =
              returned (fromPlainObject opts (Ref (length h1 + 1))
                (snd (encode rt opts s h) @ [empty_object False, empty_object False])))"
proof -
  let ?T = "spread (set_property (empty_object False) (key opts) (val_of_tag (value opts)))
              (own_enumerable h1 p)"
  have enc: "encode rt opts s h = (Inr (Ref (length h1)), h1 @ [?T])"
    unfolding encode_source [OF src] conv Let_def fst_conv snd_conv
      replaceObjectKey_primitive [OF prim] by simp
  have ne: "fst (encode rt opts s h) \<noteq> Inr p" using prim by (auto simp: enc)
  have lk: "lookup (snd (encode rt opts s h)) (length h1) = ?T" by (simp add: enc)
  have arr: "\<not> is_array (lookup (snd (encode rt opts s h)) (length h1))" by (simp add: lk)
  have nonstr: "entries ?T = [(key opts, val_of_tag (value opts))]" if "\<forall>str. p \<noteq> Str str"
    using that prim by (simp add: own_enumerable_primitive)
  have str: "fst ` set (entries ?T) = insert (key opts) (decimal ` {..<length str}) \<and>
            (\<forall>i<length str. map_of (entries ?T) (decimal i) = Some (Str [str ! i])) \<and>
            (key opts \<notin> decimal ` {..<length str} \<longrightarrow>
               map_of (entries ?T) (key opts) = Some (val_of_tag (value opts)))"
    if p: "p = Str str" for str
  proof (intro conjI allI impI)
    show "fst ` set (entries ?T) = insert (key opts) (decimal ` {..<length str})"
      by (simp add: p spread_keys string_entries_keys)
    have m: "map_of (entries ?T) =
               [key opts \<mapsto> val_of_tag (value opts)] ++ map_of (string_entries str)"
      by (simp add: p map_of_spread map_of_rev_distinct distinct_string_entries)
    show "map_of (entries ?T) (decimal i) = Some (Str [str ! i])" if "i < length str" for i
      using that by (simp add: m map_add_def map_of_string_entries)
    show "map_of (entries ?T) (key opts) = Some (val_of_tag (value opts))"
      if "key opts \<notin> decimal ` {..<length str}"
    proof -
      have "map_of (string_entries str) (key opts) = None"
        using that by (simp add: map_of_eq_None_iff string_entries_keys)
      then show ?thesis by (simp add: m map_add_def)
    qed
  qed
  have dec: "decode rt opts (Ref (length h1)) (snd (encode rt opts s h)) =
              returned (fromPlainObject opts (Ref (length h1 + 1))
                (snd (encode rt opts s h) @ [empty_object False, empty_object False]))"
    if n: "\<forall>str. p \<noteq> Str str" and v: "value opts \<noteq> TagNumber NaN"
  proof -
    have e: "entries ?T = [(key opts, val_of_tag (value opts))]" using n by (rule nonstr)
    have "val_of_tag (value opts) \<noteq> Num NaN" using v by (cases "value opts") auto
    then have t: "is_tagged opts (h1 @ [?T]) (Ref (length h1))"
      by (simp add: is_tagged_def isTargetType_def get_property_def e strict_equal_eq)
    have s: "delete_property (spread (empty_object False) (entries ?T)) (key opts) =
             empty_object False"
      unfolding e by (simp add: delete_property_def set_property_def empty_object_def)
    have s': "delete_property (spread (empty_object False)
                 (Object_entries (lookup (h1 @ [?T]) (length h1)))) (key opts) =
               empty_object False"
      unfolding lookup_append_new by (simp add: s)
    show ?thesis
      unfolding enc fst_conv snd_conv using decode_tag_only [OF t s', of rt] by simp
  qed
  show ?thesis
    using enc ne arr nonstr str dec unfolding lk by blast
qed

theorem C10_primitive_payload_witness:
  "isSource codeEncoder code_heap (Ref 0) \<and>
   toPlainObject codeEncoder (Ref 0) code_heap = (Num (Finite 5), code_heap) \<and>
   \<not> is_object (Num (Finite 5)) \<and>
   (value codeEncoder \<noteq> TagNumber NaN) \<and>
   fst (encode sample_runtime codeEncoder (Ref 0) code_heap) = Inr (Ref (length code_heap)) \<and>
   entries (lookup (snd (encode sample_runtime codeEncoder (Ref 0) code_heap)) (length code_heap)) =
     [(key codeEncoder, val_of_tag (value codeEncoder))] \<and>
   decode sample_runtime codeEncoder (Ref (length code_heap))
       (snd (encode sample_runtime codeEncoder (Ref 0) code_heap)) =
     returned (fromPlainObject codeEncoder (Ref (length code_heap + 1))
       (snd (encode sample_runtime codeEncoder (Ref 0) code_heap) @
        [empty_object False, empty_object False])) \<and>
   isSource messageEncoder error_heap (Ref 0) \<and>
   toPlainObject messageEncoder (Ref 0) error_heap = (Str ''msg'', error_heap) \<and>
   \<not> is_object (Str ''msg'') \<and>
   (1 :: nat) < length ''msg'' \<and>
   key messageEncoder \<notin> decimal ` {..<length ''msg''} \<and>
   map_of (entries (lookup (snd (encode sample_runtime messageEncoder (Ref 0) error_heap)) (length error_heap)))
       (decimal 1) = Some (Str [''msg'' ! 1]) \<and>
   map_of (entries (lookup (snd (encode sample_runtime messageEncoder (Ref 0) error_heap)) (length error_heap)))
       (key messageEncoder) = Some (val_of_tag (value messageEncoder))"
proof -
  have s1: "isSource codeEncoder code_heap (Ref 0)"
    by (simp add: codeEncoder_def is_error_def code_heap_def lookup_def)
  have p1: "toPlainObject codeEncoder (Ref 0) code_heap = (Num (Finite 5), code_heap)"
    by (simp add: codeEncoder_def read_property_def get_property_def code_heap_def lookup_def)
  have o1: "\<not> is_object (Num (Finite 5))" by simp
  have n1: "\<forall>str. Num (Finite 5) \<noteq> Str str" by simp
  have v1: "value codeEncoder \<noteq> TagNumber NaN" by (simp add: codeEncoder_def)
  note w1 = C10_primitive_payload [OF s1 p1 o1, of sample_runtime]
  from w1 have a1: "fst (encode sample_runtime codeEncoder (Ref 0) code_heap) = Inr (Ref (length code_heap))"
    by simp
  from w1 n1
  have a2: "entries (lookup (snd (encode sample_runtime codeEncoder (Ref 0) code_heap)) (length code_heap)) =
     [(key codeEncoder, val_of_tag (value codeEncoder))]"
    by blast
  from w1 n1 v1
  have a3: "decode sample_runtime codeEncoder (Ref (length code_heap))
       (snd (encode sample_runtime codeEncoder (Ref 0) code_heap)) =
     returned (fromPlainObject codeEncoder (Ref (length code_heap + 1))
       (snd (encode sample_runtime codeEncoder (Ref 0) code_heap) @
        [empty_object False, empty_object False]))"
    by blast
  have s2: "isSource messageEncoder error_heap (Ref 0)"
    by (simp add: messageEncoder_def codeEncoder_def is_error_def error_heap_def lookup_def)
  have p2: "toPlainObject messageEncoder (Ref 0) error_heap = (Str ''msg'', error_heap)"
    by (simp add: messageEncoder_def codeEncoder_def read_property_def get_property_def
        error_heap_def lookup_def)
  have o2: "\<not> is_object (Str ''msg'')" by simp
  have l2: "(1 :: nat) < length ''msg''" by simp
  have k2: "key messageEncoder \<notin> decimal ` {..<length ''msg''}"
  proof
    assume "key messageEncoder \<in> decimal ` {..<length ''msg''}"
    then obtain i where "decimal i = ''$type''"
      by (auto simp: messageEncoder_def codeEncoder_def)
    then have "digits_value ''$type'' 0 = Some (int i)"
      using digits_value_decimal [of i 0] by simp
    then show False by (simp add: is_digit_def)
  qed
  note w2 = C10_primitive_payload [OF s2 p2 o2, of sample_runtime]
  from w2 l2
  have b1: "map_of (entries (lookup (snd (encode sample_runtime messageEncoder (Ref 0) error_heap))
              (length error_heap))) (decimal 1) = Some (Str [''msg'' ! 1])"
    by blast
  from w2 k2
  have b2: "map_of (entries (lookup (snd (encode sample_runtime messageEncoder (Ref 0) error_heap))
              (length error_heap))) (key messageEncoder) =
            Some (val_of_tag (value messageEncoder))"
    by blast
  show ?thesis
    using s1 p1 o1 v1 a1 a2 a3 s2 p2 o2 l2 k2 b1 b2 by (intro conjI)
qed

section \<open>Assignments that are not ordinary\<close>

text \<open>
  The clone is filled by assignment, and three assignments do not define the property
  they name. A key renamed to \<^verbatim>\<open>length\<close> sets the length of an array clone: a valid
  length truncates the clone, any other value throws \<^verbatim>\<open>RangeError\<close>. A key
  \<^verbatim>\<open>__proto__\<close> reaches the setter of \<^verbatim>\<open>Object.prototype\<close>, and the clone has no such
  entry. Two keys renamed to the same key leave the value of the later one. An array
  clone has the length its indices give it.
\<close>

lemma decode_truncates_array:
  "\<not> is_tagged lengthEncoder truncating_heap (Ref 0) \<and>
   decode sample_runtime lengthEncoder (Ref 0) truncating_heap =
     (Inr (Ref 1),
      truncating_heap @
      [\<lparr>is_array = True, len = 0, entries = [], inherited = [], proto_setter = True\<rparr>])"
  by code_simp

lemma encode_throws_RangeError:
  "\<not> isSource engthEncoder throwing_heap (Ref 0) \<and>
   prependEscapeChar engthEncoder ''ength'' = ''length'' \<and>
   encode sample_runtime engthEncoder (Ref 0) throwing_heap = (Inl RangeError, throwing_heap)"
  by code_simp

lemma encode_drops_proto:
  "\<not> isSource errorEncoder proto_heap (Ref 0) \<and>
   encode sample_runtime errorEncoder (Ref 0) proto_heap =
     (Inr (Ref 1),
      proto_heap @
      [\<lparr>is_array = False, len = 0, entries = [(''_$type'', Num (Finite 2))],
        inherited = [], proto_setter = True\<rparr>])"
  by code_simp

lemma decode_collision_loses_value:
  "\<not> is_tagged errorEncoder twin_heap (Ref 0) \<and>
   decode sample_runtime errorEncoder (Ref 0) twin_heap =
     (Inr (Ref 1),
      twin_heap @
      [\<lparr>is_array = False, len = 0,
        entries = [(''$type'', Num (Finite 2)), (''age'', Num (Finite 3))],
        inherited = [], proto_setter = True\<rparr>])"
  by code_simp

lemma encode_array_length:
  "encode sample_runtime errorEncoder (Ref 0) array_heap =
     (Inr (Ref 1),
      array_heap @
      [\<lparr>is_array = True, len = 2,
        entries = [(''0'', Str ''a''), (''1'', Str ''b''), (''_$type'', Num (Finite 1))],
        inherited = [], proto_setter = True\<rparr>]) \<and>
   get_property (lookup (snd (encode sample_runtime errorEncoder (Ref 0) array_heap)) 1)
     ''length'' = Num (Finite 2)"
  by code_simp
end
